theory Spec2Isabelle
  imports Complex_Main "HOL-Library.Word" "HOL-Library.Signed_Division"
begin

unbundle bit_operations_syntax

section \<open>The virtual memory manager of Project3/Part-I/virtmem.c\<close>

text \<open>
  The program translates a stream of logical addresses through a TLB, a page table and a
  pool of \<open>FRAMES\<close> physical frames, replacing pages by FIFO (\<open>rp = 0\<close>) or LRU.
  C \<open>int\<close> values are modelled as \<open>int\<close>; the loop stops with \<open>SignedOverflow\<close> where
  \<open>time_count\<close> or \<open>total_addresses\<close> would exceed \<open>INT_MAX\<close>, which is undefined in C (the
  other counters stay below these two). \<open>unsigned char\<close> and
  \<open>signed char\<close> are \<open>8 word\<close>. The operator \<open>%\<close> of C truncates towards zero and is
  \<open>smod\<close>; \<open>&\<close>, \<open>|\<close>, \<open>>>\<close> and \<open><<\<close> on \<open>int\<close> are the two's complement operations
  \<open>AND\<close>, \<open>OR\<close>, \<open>drop_bit\<close> and \<open>push_bit\<close>.
\<close>

subsection \<open>Constants\<close>

definition TLB_SIZE :: int where "TLB_SIZE = 16"
definition PAGES :: int where "PAGES = 256"
definition PAGE_MASK :: int where "PAGE_MASK = 255"
definition FRAMES :: int where "FRAMES = 64"
definition PAGE_SIZE :: int where "PAGE_SIZE = 256"
definition OFFSET_BITS :: nat where "OFFSET_BITS = 8"
definition OFFSET_MASK :: int where "OFFSET_MASK = 255"
definition PHYSICAL_MEMORY_SIZE :: int where "PHYSICAL_MEMORY_SIZE = FRAMES * PAGE_SIZE"
definition INT_MAX :: int where "INT_MAX = 2147483647"

lemmas consts_defs = TLB_SIZE_def PAGES_def PAGE_MASK_def FRAMES_def PAGE_SIZE_def
  OFFSET_BITS_def OFFSET_MASK_def PHYSICAL_MEMORY_SIZE_def INT_MAX_def

subsection \<open>Data\<close>

datatype error = OutOfBounds | UninitialisedRead | SignedOverflow

record tlbentry =
  logical :: "8 word"
  physical :: "8 word"

text \<open>
  The FIFO queue. \<open>queueArray\<close> comes from \<open>malloc\<close>, so a cell holds no value
  (\<open>None\<close>) until \<open>enqueue\<close> has written it. The field \<open>size\<close> of the source is \<open>size_q\<close>.
\<close>

record PageQueue =
  queueArray :: "int option list"
  size_q :: int
  numberOfFrames :: int
  head :: int
  tail :: int

definition initQueue :: "int \<Rightarrow> PageQueue" where
  "initQueue n =
     \<lparr>queueArray = replicate (nat n) None, size_q = 0, numberOfFrames = n,
      head = 0, tail = n - 1\<rparr>"

definition enqueue :: "PageQueue \<Rightarrow> int \<Rightarrow> PageQueue" where
  "enqueue q data =
     (if \<not> (numberOfFrames q = size_q q) then
        (let t = (tail q + 1) smod numberOfFrames q
         in q\<lparr>tail := t, queueArray := (queueArray q)[nat t := Some data],
              size_q := size_q q + 1\<rparr>)
      else q)"

text \<open>\<open>dequeue\<close> returns the element and the queue; \<open>-1\<close> is the sentinel of the empty queue.\<close>

definition dequeue :: "PageQueue \<Rightarrow> error + (int \<times> PageQueue)" where
  "dequeue q =
     (if \<not> (size_q q = 0) then
        (case queueArray q ! nat (head q) of
           None \<Rightarrow> Inl UninitialisedRead
         | Some element \<Rightarrow>
             Inr (element, q\<lparr>head := (head q + 1) smod numberOfFrames q,
                              size_q := size_q q - 1\<rparr>))
      else Inr (- 1, q))"

text \<open>
  The globals of the program and the locals of \<open>main\<close> that live across loop iterations.
  \<open>main_memory\<close> and the memory-mapped \<open>backing\<close> file are stores from byte index to
  byte; every access to \<open>main_memory\<close> is checked against its bounds where it happens.
  Globals start zeroed, as C initialises them.
\<close>

record vm =
  tlb :: "tlbentry list"
  tlbindex :: int
  pagetable :: "int list"
  main_memory :: "int \<Rightarrow> 8 word"
  recentUsages :: "int list"
  queue :: PageQueue
  total_addresses :: int
  tlb_hits :: int
  page_faults :: int
  free_page :: "8 word"
  time_count :: int

text \<open>Which branch of the loop body resolved an address (not part of the program's state).\<close>

datatype path = TlbHit | TableHit | FaultFree | FaultVictim

text \<open>
  One line of output: the three numbers of the \<open>printf\<close>, and with them the frame
  \<open>physical_page\<close> and the branch taken.
\<close>

record line_out =
  out_logical_address :: int
  out_physical_address :: int
  out_value :: int
  out_frame :: int
  out_path :: path

subsection \<open>LRU scan\<close>

text \<open>
  The scan of \<open>get_least_recently_used_element\<close>: \<open>i\<close> is the loop counter, \<open>leastRecent\<close>
  the running minimum and \<open>idx\<close> is \<open>leastRecentUsedElementIndex\<close>.
\<close>

function lru_scan :: "int list \<Rightarrow> int \<Rightarrow> int \<Rightarrow> int \<Rightarrow> int" where
  "lru_scan ru i leastRecent idx =
     (if i < FRAMES then
        (if ru ! nat i < leastRecent then lru_scan ru (i + 1) (ru ! nat i) i
         else lru_scan ru (i + 1) leastRecent idx)
      else idx)"
  by pat_completeness auto
termination
  by (relation "measure (\<lambda>(ru, i, leastRecent, idx). nat (FRAMES - i))") auto

declare lru_scan.simps [simp del]

definition get_least_recently_used_element :: "vm \<Rightarrow> int" where
  "get_least_recently_used_element s = lru_scan (recentUsages s) 0 10000000 0"

subsection \<open>TLB\<close>

text \<open>
  The loop of \<open>search_tlb\<close> from counter \<open>i\<close>; the parameter is an \<open>unsigned char\<close> and
  the result the entry's \<open>unsigned char\<close> frame as an \<open>int\<close>, or \<open>-1\<close>. The function \<open>max\<close>
  of the source is the maximum of two integers.
\<close>

function search_tlb_from :: "tlbentry list \<Rightarrow> int \<Rightarrow> 8 word \<Rightarrow> int \<Rightarrow> int" where
  "search_tlb_from t tlbidx logical_page i =
     (if i < tlbidx then
        (let entry = t ! nat (i smod TLB_SIZE)
         in if logical entry = logical_page then uint (physical entry)
            else search_tlb_from t tlbidx logical_page (i + 1))
      else - 1)"
  by pat_completeness auto
termination
  by (relation "measure (\<lambda>(t, tlbidx, logical_page, i). nat (tlbidx - i))") auto

declare search_tlb_from.simps [simp del]

definition search_tlb :: "vm \<Rightarrow> 8 word \<Rightarrow> int" where
  "search_tlb s logical_page =
     search_tlb_from (tlb s) (tlbindex s) logical_page (max (tlbindex s - TLB_SIZE) 0)"

definition add_to_tlb :: "vm \<Rightarrow> 8 word \<Rightarrow> 8 word \<Rightarrow> vm" where
  "add_to_tlb s l p =
     s\<lparr>tlb := (tlb s)[nat (tlbindex s smod TLB_SIZE) := \<lparr>logical = l, physical = p\<rparr>],
       tlbindex := tlbindex s + 1\<rparr>"

subsection \<open>The loop body of main\<close>

definition offset_of :: "int \<Rightarrow> int" where
  "offset_of logical_address = logical_address AND OFFSET_MASK"

definition page_of :: "int \<Rightarrow> int" where
  "page_of logical_address = drop_bit OFFSET_BITS logical_address AND PAGE_MASK"

text \<open>Lines 232-247: the next unallocated frame, or the victim of the replacement policy.\<close>

definition select_frame :: "int \<Rightarrow> vm \<Rightarrow> error + (int \<times> path \<times> vm)" where
  "select_frame rp s =
     (if uint (free_page s) < FRAMES then
        Inr (uint (free_page s), FaultFree, s\<lparr>free_page := free_page s + 1\<rparr>)
      else if rp = 0 then
        (case dequeue (queue s) of
           Inl e \<Rightarrow> Inl e
         | Inr (element, q) \<Rightarrow> Inr (element, FaultVictim, s\<lparr>queue := q\<rparr>))
      else Inr (get_least_recently_used_element s, FaultVictim, s))"

text \<open>
  Line 249: \<open>memcpy\<close> of one page from the backing file into frame \<open>physical_page\<close>. The
  source range lies in the mapped file for every \<open>logical_page\<close> below \<open>PAGES\<close>; the
  target range lies in \<open>main_memory\<close> only for a frame in \<open>[0, FRAMES)\<close>.
\<close>

definition load_page ::
  "(int \<Rightarrow> 8 word) \<Rightarrow> (int \<Rightarrow> 8 word) \<Rightarrow> int \<Rightarrow> int \<Rightarrow> error + (int \<Rightarrow> 8 word)" where
  "load_page backing mem physical_page logical_page =
     (if 0 \<le> physical_page \<and> physical_page < FRAMES then
        Inr (\<lambda>a. if physical_page * PAGE_SIZE \<le> a \<and> a < physical_page * PAGE_SIZE + PAGE_SIZE
                 then backing (logical_page * PAGE_SIZE + (a - physical_page * PAGE_SIZE))
                 else mem a)
      else Inl OutOfBounds)"

text \<open>Lines 251-257: clear the first page table entry that holds the frame.\<close>

function clear_owner :: "int list \<Rightarrow> int \<Rightarrow> int \<Rightarrow> int list" where
  "clear_owner pt physical_page k =
     (if k < PAGES then
        (if pt ! nat k = physical_page then pt[nat k := - 1]
         else clear_owner pt physical_page (k + 1))
      else pt)"
  by pat_completeness auto
termination
  by (relation "measure (\<lambda>(pt, physical_page, k). nat (PAGES - k))") auto

declare clear_owner.simps [simp del]

text \<open>Lines 230-259: the page fault.\<close>

definition page_fault ::
  "int \<Rightarrow> (int \<Rightarrow> 8 word) \<Rightarrow> vm \<Rightarrow> int \<Rightarrow> error + (int \<times> path \<times> vm)" where
  "page_fault rp backing s logical_page =
     (case select_frame rp (s\<lparr>page_faults := page_faults s + 1\<rparr>) of
        Inl e \<Rightarrow> Inl e
      | Inr (physical_page, how, s1) \<Rightarrow>
          (case load_page backing (main_memory s1) physical_page logical_page of
             Inl e \<Rightarrow> Inl e
           | Inr m \<Rightarrow>
               Inr (physical_page, how,
                    s1\<lparr>main_memory := m,
                       pagetable := (clear_owner (pagetable s1) physical_page 0)
                                      [nat logical_page := physical_page]\<rparr>)))"

text \<open>
  Lines 216-263: TLB probe, page table probe, page fault. The arguments of \<open>search_tlb\<close>
  and \<open>add_to_tlb\<close> are converted to \<open>unsigned char\<close>.
\<close>

definition resolve ::
  "int \<Rightarrow> (int \<Rightarrow> 8 word) \<Rightarrow> vm \<Rightarrow> int \<Rightarrow> error + (int \<times> path \<times> vm)" where
  "resolve rp backing s logical_page =
     (let physical_page = search_tlb s (word_of_int logical_page)
      in if physical_page \<noteq> - 1 then
           Inr (physical_page, TlbHit, s\<lparr>tlb_hits := tlb_hits s + 1\<rparr>)
         else
           (let physical_page = pagetable s ! nat logical_page
            in if physical_page = - 1 then
                 (case page_fault rp backing s logical_page of
                    Inl e \<Rightarrow> Inl e
                  | Inr (physical_page, how, s1) \<Rightarrow>
                      Inr (physical_page, how,
                           add_to_tlb s1 (word_of_int logical_page) (word_of_int physical_page)))
               else
                 Inr (physical_page, TableHit,
                      add_to_tlb s (word_of_int logical_page) (word_of_int physical_page))))"

text \<open>Lines 265-272: the replacement policy is told of the frame, on every address.\<close>

definition frame_used :: "int \<Rightarrow> vm \<Rightarrow> int \<Rightarrow> error + vm" where
  "frame_used rp s physical_page =
     (if rp = 0 then Inr (s\<lparr>queue := enqueue (queue s) physical_page\<rparr>)
      else if 0 \<le> physical_page \<and> physical_page < FRAMES then
        Inr (s\<lparr>recentUsages := (recentUsages s)[nat physical_page := time_count s]\<rparr>)
      else Inl OutOfBounds)"

text \<open>Lines 274-277: the physical address, the byte read from \<open>main_memory\<close>, the line.\<close>

definition emit :: "vm \<Rightarrow> int \<Rightarrow> int \<Rightarrow> path \<Rightarrow> error + line_out" where
  "emit s logical_address physical_page how =
     (let offset = offset_of logical_address;
          idx = physical_page * PAGE_SIZE + offset
      in if 0 \<le> idx \<and> idx < PHYSICAL_MEMORY_SIZE then
           Inr \<lparr>out_logical_address = logical_address,
                out_physical_address = push_bit OFFSET_BITS physical_page OR offset,
                out_value = sint (main_memory s idx),
                out_frame = physical_page,
                out_path = how\<rparr>
         else Inl OutOfBounds)"

text \<open>
  One iteration of the \<open>while\<close> loop (lines 208-278) on the number \<open>atoi\<close> returned.
\<close>

definition translate ::
  "int \<Rightarrow> (int \<Rightarrow> 8 word) \<Rightarrow> vm \<Rightarrow> int \<Rightarrow> error + (vm \<times> line_out)" where
  "translate rp backing s logical_address =
     (if INT_MAX \<le> time_count s \<or> INT_MAX \<le> total_addresses s then Inl SignedOverflow
      else
        (let s0 = s\<lparr>time_count := time_count s + 1,
                    total_addresses := total_addresses s + 1\<rparr>
         in case resolve rp backing s0 (page_of logical_address) of
              Inl e \<Rightarrow> Inl e
            | Inr (physical_page, how, s1) \<Rightarrow>
                (case frame_used rp s1 physical_page of
                   Inl e \<Rightarrow> Inl e
                 | Inr s2 \<Rightarrow>
                     (case emit s2 logical_address physical_page how of
                        Inl e \<Rightarrow> Inl e
                      | Inr line \<Rightarrow> Inr (s2, line)))))"

text \<open>Lines 182-207: the state before the first address.\<close>

definition init_state :: vm where
  "init_state =
     \<lparr>tlb = replicate (nat TLB_SIZE) \<lparr>logical = 0, physical = 0\<rparr>,
      tlbindex = 0,
      pagetable = replicate (nat PAGES) (- 1),
      main_memory = (\<lambda>a. 0),
      recentUsages = replicate (nat FRAMES) (- 1),
      queue = initQueue FRAMES,
      total_addresses = 0, tlb_hits = 0, page_faults = 0, free_page = 0, time_count = 0\<rparr>"

text \<open>The whole loop over the addresses of the input file.\<close>

fun run ::
  "int \<Rightarrow> (int \<Rightarrow> 8 word) \<Rightarrow> vm \<Rightarrow> int list \<Rightarrow> error + (vm \<times> line_out list)" where
  "run rp backing s [] = Inr (s, [])"
| "run rp backing s (a # as) =
     (case translate rp backing s a of
        Inl e \<Rightarrow> Inl e
      | Inr (s1, line) \<Rightarrow>
          (case run rp backing s1 as of
             Inl e \<Rightarrow> Inl e
           | Inr (s2, lines) \<Rightarrow> Inr (s2, line # lines)))"

subsection \<open>The final report\<close>

text \<open>
  Lines 280-284. The rates are \<open>double\<close> divisions \<open>n / (1. * total_addresses)\<close>. With IEEE
  754 arithmetic (Annex F of the C standard) a division by zero does not trap: it
  yields NaN for \<open>0 / 0\<close> and an infinity otherwise. \<open>Finite\<close> carries the exact quotient;
  the rounding to a \<open>double\<close> and to three decimals by \<open>printf\<close> is not modelled.
\<close>

datatype c_double = Finite real | NaN | PlusInfinity | MinusInfinity

definition double_div :: "int \<Rightarrow> int \<Rightarrow> c_double" where
  "double_div n d =
     (if d = 0 then (if n = 0 then NaN else if 0 < n then PlusInfinity else MinusInfinity)
      else Finite (real_of_int n / real_of_int d))"

record report =
  translated_addresses :: int
  report_page_faults :: int
  page_fault_rate :: c_double
  report_tlb_hits :: int
  tlb_hit_rate :: c_double

definition final_report :: "vm \<Rightarrow> report" where
  "final_report s =
     \<lparr>translated_addresses = total_addresses s,
      report_page_faults = page_faults s,
      page_fault_rate = double_div (page_faults s) (1 * total_addresses s),
      report_tlb_hits = tlb_hits s,
      tlb_hit_rate = double_div (tlb_hits s) (1 * total_addresses s)\<rparr>"

subsection \<open>State invariants\<close>

text \<open>
  What holds of the state between two iterations of the loop. Every frame number in the
  TLB and in the page table is a frame of \<open>main_memory\<close>; the live cells of the circular
  queue are the \<open>size\<close> cells from \<open>head\<close> on, each written with such a frame number.
\<close>

definition tlb_ok :: "tlbentry list \<Rightarrow> bool" where
  "tlb_ok t \<longleftrightarrow> length t = 16 \<and> (\<forall>e\<in>set t. uint (physical e) < FRAMES)"

definition pt_ok :: "int list \<Rightarrow> bool" where
  "pt_ok pt \<longleftrightarrow> length pt = 256 \<and> (\<forall>v\<in>set pt. v = - 1 \<or> (0 \<le> v \<and> v < FRAMES))"

definition queue_inv :: "PageQueue \<Rightarrow> bool" where
  "queue_inv q \<longleftrightarrow>
     numberOfFrames q = FRAMES \<and> length (queueArray q) = 64 \<and>
     0 \<le> head q \<and> head q < 64 \<and> 0 \<le> size_q q \<and> size_q q \<le> 64 \<and>
     tail q = (head q + size_q q + 63) mod 64 \<and>
     (\<forall>i. 0 \<le> i \<and> i < size_q q \<longrightarrow>
        (\<exists>v. queueArray q ! nat ((head q + i) mod 64) = Some v \<and> 0 \<le> v \<and> v < FRAMES))"

definition struct_inv :: "vm \<Rightarrow> bool" where
  "struct_inv s \<longleftrightarrow>
     tlb_ok (tlb s) \<and> pt_ok (pagetable s) \<and> length (recentUsages s) = 64 \<and>
     queue_inv (queue s) \<and> uint (free_page s) \<le> FRAMES"

definition vm_inv :: "int \<Rightarrow> vm \<Rightarrow> bool" where
  "vm_inv rp s \<longleftrightarrow>
     struct_inv s \<and> (rp = 0 \<longrightarrow> uint (free_page s) \<le> size_q (queue s))"

text \<open>A backing file of zero bytes, for concrete runs.\<close>

definition zero_backing :: "int \<Rightarrow> 8 word" where
  "zero_backing a = 0"

text \<open>The lines of page faults, in order.\<close>

definition is_fault :: "line_out \<Rightarrow> bool" where
  "is_fault l \<longleftrightarrow> out_path l = FaultFree \<or> out_path l = FaultVictim"

definition faults_of :: "line_out list \<Rightarrow> line_out list" where
  "faults_of ls = filter is_fault ls"

text \<open>The lines a run printed.\<close>

definition lines_of :: "error + (vm \<times> line_out list) \<Rightarrow> line_out list" where
  "lines_of r = (case r of Inl e \<Rightarrow> [] | Inr (s, ls) \<Rightarrow> ls)"

text \<open>No two pages of a page table are bound to the same frame.\<close>

definition one_owner :: "int list \<Rightarrow> bool" where
  "one_owner pt \<longleftrightarrow>
     (\<forall>p1 p2. p1 < length pt \<and> p2 < length pt \<and> p1 \<noteq> p2 \<and>
        pt ! p1 \<noteq> - 1 \<and> pt ! p2 \<noteq> - 1 \<longrightarrow> pt ! p1 \<noteq> pt ! p2)"

text \<open>A backing file whose byte at index \<open>a\<close> is \<open>a mod 256\<close>.\<close>

definition ramp_backing :: "int \<Rightarrow> 8 word" where
  "ramp_backing a = word_of_int a"

text \<open>
  The TLB after the insertions \<open>h\<close>, oldest first, and the entries of \<open>h\<close> that
  \<open>search_tlb\<close> is to scan: the most recent \<open>min TLB_SIZE (length h)\<close> of them.
\<close>

fun insert_all :: "vm \<Rightarrow> tlbentry list \<Rightarrow> vm" where
  "insert_all s [] = s"
| "insert_all s (e # es) = insert_all (add_to_tlb s (logical e) (physical e)) es"

definition recent_entries :: "tlbentry list \<Rightarrow> tlbentry list" where
  "recent_entries h = drop (length h - min (nat TLB_SIZE) (length h)) h"

text \<open>
  Frame \<open>v\<close> holds the least timestamp of \<open>ru\<close>, and is the lowest such frame.
\<close>

definition least_recent :: "int list \<Rightarrow> int \<Rightarrow> bool" where
  "least_recent ru v \<longleftrightarrow>
     0 \<le> v \<and> v < FRAMES \<and>
     (\<forall>j. 0 \<le> j \<and> j < FRAMES \<longrightarrow> ru ! nat v \<le> ru ! nat j) \<and>
     (\<forall>j. 0 \<le> j \<and> j < v \<longrightarrow> ru ! nat v < ru ! nat j)"

text \<open>
  The state after \<open>M\<close> accesses to page 0 and one access to each of the pages 1 to \<open>k\<close>:
  page \<open>p\<close> is in frame \<open>p\<close>, the TLB holds pages up to \<open>k\<close> with their frames, the queue
  holds one frame per access (while it has room), and the timestamps are those of the
  accesses.
\<close>

definition ident :: "int \<Rightarrow> nat \<Rightarrow> nat \<Rightarrow> vm \<Rightarrow> bool" where
  "ident rp M k s \<longleftrightarrow>
     time_count s = int (M + k) \<and> total_addresses s = int (M + k) \<and>
     uint (free_page s) = int k + 1 \<and>
     length (pagetable s) = 256 \<and>
     (\<forall>p<256. pagetable s ! p = (if p \<le> k then int p else - 1)) \<and>
     length (tlb s) = 16 \<and> 0 \<le> tlbindex s \<and>
     (\<forall>e\<in>set (tlb s). uint (physical e) = uint (logical e) \<and> uint (logical e) \<le> int k) \<and>
     (if rp = 0 then
        numberOfFrames (queue s) = 64 \<and> length (queueArray (queue s)) = 64 \<and>
        head (queue s) = 0 \<and> size_q (queue s) = min 64 (int (M + k)) \<and>
        tail (queue s) = size_q (queue s) - 1 \<and>
        (\<forall>j<64. j < M + k \<longrightarrow>
           queueArray (queue s) ! j = Some (if j < M then 0 else int (j - M) + 1))
      else
        length (recentUsages s) = 64 \<and> recentUsages s ! 0 = int M \<and>
        (\<forall>j. 1 \<le> j \<and> j \<le> k \<longrightarrow> recentUsages s ! j = int (M + j)))"

text \<open>The input of that state: \<open>M\<close> times address 0, then the first address of pages 1 to \<open>k\<close>.\<close>

definition warm_input :: "nat \<Rightarrow> nat \<Rightarrow> int list" where
  "warm_input M k = replicate M 0 @ map (\<lambda>p. int p * 256) [1..<Suc k]"



definition queue_size_of :: "error + (vm \<times> line_out list) \<Rightarrow> int" where
  "queue_size_of r = (case r of Inl e \<Rightarrow> - 1 | Inr (s, ls) \<Rightarrow> size_q (queue s))"

section \<open>Proofs\<close>

subsection \<open>Arithmetic of the machine types\<close>

lemma smod_nonneg: "0 \<le> a \<Longrightarrow> 0 < b \<Longrightarrow> (a::int) smod b = a mod b"
  by (cases "a = 0") (simp_all add: smod_int_alt_def)

lemma uint_woi8: "0 \<le> x \<Longrightarrow> x < 256 \<Longrightarrow> uint (word_of_int x :: 8 word) = x"
  by (simp add: uint_word_of_int)

lemma uint_succ8: "uint (w :: 8 word) < 255 \<Longrightarrow> uint (w + 1) = uint w + 1"
  by (simp add: uint_word_ariths)

lemma search_tlb_from_range:
  "tlb_ok t \<Longrightarrow> 0 \<le> i \<Longrightarrow>
   search_tlb_from t n w i = - 1 \<or>
   (0 \<le> search_tlb_from t n w i \<and> search_tlb_from t n w i < FRAMES)"
proof (induction t n w i rule: search_tlb_from.induct)
  case (1 t n w i)
  have idx: "nat (i smod TLB_SIZE) < length t"
    using 1(2,3) by (simp add: smod_nonneg TLB_SIZE_def tlb_ok_def)
  then have "t ! nat (i smod TLB_SIZE) \<in> set t" by simp
  then have ph: "uint (physical (t ! nat (i smod TLB_SIZE))) < FRAMES"
    using 1(2) by (simp add: tlb_ok_def)
  show ?case
  proof (cases "i < n")
    case False
    then show ?thesis by (subst search_tlb_from.simps) simp
  next
    case True
    show ?thesis
    proof (cases "logical (t ! nat (i smod TLB_SIZE)) = w")
      case hit: True
      then show ?thesis using True ph
        by (subst (1 2 3) search_tlb_from.simps) (simp add: Let_def)
    next
      case miss: False
      have "search_tlb_from t n w (i + 1) = - 1 \<or>
            (0 \<le> search_tlb_from t n w (i + 1) \<and> search_tlb_from t n w (i + 1) < FRAMES)"
        using 1(1)[OF True refl miss 1(2)] 1(3) by simp
      then show ?thesis using True miss
        by (subst (1 2 3) search_tlb_from.simps) (simp add: Let_def)
    qed
  qed
qed

lemma lru_scan_range:
  "0 \<le> i \<Longrightarrow> 0 \<le> idx \<Longrightarrow> idx < FRAMES \<Longrightarrow>
   0 \<le> lru_scan ru i lr idx \<and> lru_scan ru i lr idx < FRAMES"
proof (induction ru i lr idx rule: lru_scan.induct)
  case (1 ru i lr idx)
  show ?case
  proof (cases "i < FRAMES")
    case False
    then show ?thesis using 1(4,5) by (subst (1 2) lru_scan.simps) simp
  next
    case True
    show ?thesis
    proof (cases "ru ! nat i < lr")
      case less: True
      from 1(1)[OF True less] 1(3) True
      have "0 \<le> lru_scan ru (i + 1) (ru ! nat i) i \<and> lru_scan ru (i + 1) (ru ! nat i) i < FRAMES"
        by simp
      then show ?thesis using True less by (subst (1 2) lru_scan.simps) simp
    next
      case geq: False
      from 1(2)[OF True geq] 1(3,4,5)
      have "0 \<le> lru_scan ru (i + 1) lr idx \<and> lru_scan ru (i + 1) lr idx < FRAMES"
        by simp
      then show ?thesis using True geq by (subst (1 2) lru_scan.simps) simp
    qed
  qed
qed

lemma length_clear_owner [simp]: "length (clear_owner pt pp k) = length pt"
  by (induction pt pp k rule: clear_owner.induct)
     (subst clear_owner.simps, simp)

lemma set_clear_owner: "set (clear_owner pt pp k) \<subseteq> insert (- 1) (set pt)"
proof (induction pt pp k rule: clear_owner.induct)
  case (1 pt pp k)
  show ?case
    using 1 set_update_subset_insert[of pt "nat k" "- 1"]
    by (subst clear_owner.simps) auto
qed

lemma pt_ok_bind:
  assumes "pt_ok pt" "0 \<le> pp" "pp < FRAMES"
  shows "pt_ok ((clear_owner pt pp 0)[i := pp])"
proof -
  have "set ((clear_owner pt pp 0)[i := pp]) \<subseteq> insert pp (insert (- 1) (set pt))"
    using set_update_subset_insert[of "clear_owner pt pp 0" i pp] set_clear_owner[of pt pp 0]
    by blast
  then show ?thesis using assms unfolding pt_ok_def by auto
qed

lemma enqueue_inv:
  assumes "queue_inv q" "0 \<le> v" "v < FRAMES"
  shows "queue_inv (enqueue q v) \<and>
         size_q (enqueue q v) = (if size_q q = 64 then 64 else size_q q + 1)"
proof (cases "size_q q = 64")
  case True
  then show ?thesis using assms(1) by (simp add: enqueue_def queue_inv_def FRAMES_def)
next
  case False
  define t where "t = (tail q + 1) smod numberOfFrames q"
  have q: "numberOfFrames q = 64" "length (queueArray q) = 64" "0 \<le> head q" "head q < 64"
    "0 \<le> size_q q" "size_q q < 64" "tail q = (head q + size_q q + 63) mod 64"
    using assms(1) False by (simp_all add: queue_inv_def FRAMES_def)
  have cells: "\<And>i. 0 \<le> i \<Longrightarrow> i < size_q q \<Longrightarrow>
      \<exists>v. queueArray q ! nat ((head q + i) mod 64) = Some v \<and> 0 \<le> v \<and> v < FRAMES"
    using assms(1) by (simp add: queue_inv_def)
  have t: "t = (head q + size_q q) mod 64"
    unfolding t_def using q by (simp add: smod_nonneg mod_add_left_eq)
  have eq: "enqueue q v = q\<lparr>tail := t, queueArray := (queueArray q)[nat t := Some v],
                            size_q := size_q q + 1\<rparr>"
    using False q by (simp add: enqueue_def t_def Let_def)
  have tl: "t = (head q + (size_q q + 1) + 63) mod 64"
    unfolding t by simp
  have new: "\<exists>w. (queueArray q)[nat t := Some v] ! nat ((head q + i) mod 64) = Some w \<and>
                 0 \<le> w \<and> w < FRAMES"
    if "0 \<le> i" "i < size_q q + 1" for i
  proof (cases "i = size_q q")
    case True
    then show ?thesis using assms(2,3) q t by simp
  next
    case ne: False
    have "(head q + i) mod 64 \<noteq> t"
    proof
      assume "(head q + i) mod 64 = t"
      then have "(head q + size_q q) mod 64 = (head q + i) mod 64" unfolding t by simp
      then have "64 dvd (head q + size_q q) - (head q + i)" by (simp only: mod_eq_dvd_iff)
      then have "64 dvd size_q q - i" by simp
      moreover have "0 < size_q q - i" "size_q q - i < 64" using that ne q by simp_all
      ultimately show False using zdvd_not_zless by blast
    qed
    moreover have "0 \<le> (head q + i) mod 64" "0 \<le> t" unfolding t by simp_all
    ultimately have "nat ((head q + i) mod 64) \<noteq> nat t" by simp
    then show ?thesis using cells[of i] that ne by simp
  qed
  show ?thesis
    unfolding eq using q tl new False by (simp add: queue_inv_def FRAMES_def)
qed

lemma dequeue_inv:
  assumes "queue_inv q" "size_q q \<noteq> 0"
  shows "\<exists>e q'. dequeue q = Inr (e, q') \<and> 0 \<le> e \<and> e < FRAMES \<and> queue_inv q' \<and>
           size_q q' = size_q q - 1"
proof -
  have q: "numberOfFrames q = 64" "length (queueArray q) = 64" "0 \<le> head q" "head q < 64"
    "0 < size_q q" "size_q q \<le> 64" "tail q = (head q + size_q q + 63) mod 64"
    using assms by (simp_all add: queue_inv_def FRAMES_def)
  have cells: "\<And>i. 0 \<le> i \<Longrightarrow> i < size_q q \<Longrightarrow>
      \<exists>v. queueArray q ! nat ((head q + i) mod 64) = Some v \<and> 0 \<le> v \<and> v < FRAMES"
    using assms(1) by (simp add: queue_inv_def)
  from cells[of 0] q obtain e where
    e: "queueArray q ! nat (head q) = Some e" "0 \<le> e" "e < FRAMES" by auto
  define q' where "q' = q\<lparr>head := (head q + 1) smod numberOfFrames q, size_q := size_q q - 1\<rparr>"
  have h: "head q' = (head q + 1) mod 64" using q by (simp add: q'_def smod_nonneg)
  have eq: "dequeue q = Inr (e, q')" using assms(2) e by (simp add: dequeue_def q'_def)
  have "((head q + 1) mod 64 + (size_q q - 1 + 63)) mod 64 =
        ((head q + 1) + (size_q q - 1 + 63)) mod 64"
    by (rule mod_add_left_eq)
  also have "(head q + 1) + (size_q q - 1 + 63) = head q + size_q q + 63" by simp
  finally have tl: "tail q' = (head q' + size_q q' + 63) mod 64"
    unfolding h using q by (simp add: q'_def add.assoc)
  have new: "\<exists>w. queueArray q' ! nat ((head q' + i) mod 64) = Some w \<and> 0 \<le> w \<and> w < FRAMES"
    if "0 \<le> i" "i < size_q q'" for i
  proof -
    have "((head q + 1) mod 64 + i) mod 64 = ((head q + 1) + i) mod 64"
      by (rule mod_add_left_eq)
    then have "(head q' + i) mod 64 = (head q + (i + 1)) mod 64"
      unfolding h by (simp add: ac_simps)
    then show ?thesis using cells[of "i + 1"] that by (simp add: q'_def)
  qed
  have "queue_inv q'"
    unfolding queue_inv_def using tl new q h by (simp add: q'_def FRAMES_def)
  then show ?thesis using eq e by (auto simp: q'_def)
qed


lemma search_tlb_range:
  assumes "tlb_ok (tlb s)"
  shows "search_tlb s w = - 1 \<or> (0 \<le> search_tlb s w \<and> search_tlb s w < FRAMES)"
  unfolding search_tlb_def using search_tlb_from_range[OF assms, of "max (tlbindex s - TLB_SIZE) 0"]
  by simp

lemma tlb_ok_update:
  assumes "tlb_ok t" "0 \<le> pp" "pp < FRAMES"
  shows "tlb_ok (t[i := \<lparr>logical = l, physical = word_of_int pp\<rparr>])"
proof -
  let ?x = "\<lparr>logical = l, physical = word_of_int pp :: 8 word\<rparr>"
  have "uint (word_of_int pp :: 8 word) = pp"
    using assms(2,3) by (simp add: uint_woi8 FRAMES_def)
  then have x: "uint (physical ?x) < FRAMES" using assms(3) by simp
  have old: "\<And>e. e \<in> set t \<Longrightarrow> uint (physical e) < FRAMES"
    using assms(1) by (simp add: tlb_ok_def)
  have "uint (physical e) < FRAMES" if "e \<in> set (t[i := ?x])" for e
  proof -
    from that set_update_subset_insert[of t i ?x] have "e = ?x \<or> e \<in> set t" by blast
    then show ?thesis using x old by blast
  qed
  moreover have "length (t[i := ?x]) = 16" using assms(1) by (simp add: tlb_ok_def)
  ultimately show ?thesis unfolding tlb_ok_def by blast
qed

lemma page_of_range: "0 \<le> page_of a \<and> page_of a < 256"
  by (simp add: page_of_def PAGE_MASK_def)

lemma offset_of_range: "0 \<le> offset_of a \<and> offset_of a < 256"
  by (simp add: offset_of_def OFFSET_MASK_def)

lemma select_frame_ok:
  assumes "vm_inv rp s"
  shows "\<exists>pp how s1. select_frame rp s = Inr (pp, how, s1) \<and> 0 \<le> pp \<and> pp < FRAMES \<and>
           tlb s1 = tlb s \<and> tlbindex s1 = tlbindex s \<and> pagetable s1 = pagetable s \<and>
           main_memory s1 = main_memory s \<and> recentUsages s1 = recentUsages s \<and>
           time_count s1 = time_count s \<and> total_addresses s1 = total_addresses s \<and>
           queue_inv (queue s1) \<and> uint (free_page s1) \<le> FRAMES \<and>
           (rp = 0 \<longrightarrow> uint (free_page s1) \<le>
              (if size_q (queue s1) = 64 then 64 else size_q (queue s1) + 1))"
proof (cases "uint (free_page s) < FRAMES")
  case True
  then have "uint (free_page s + 1) = uint (free_page s) + 1"
    by (simp add: uint_succ8 FRAMES_def)
  then show ?thesis using True assms
    by (auto simp: select_frame_def vm_inv_def struct_inv_def FRAMES_def)
next
  case False
  show ?thesis
  proof (cases "rp = 0")
    case fifo: True
    have qi: "queue_inv (queue s)" and fp: "uint (free_page s) = 64" and "size_q (queue s) = 64"
      using assms False fifo by (auto simp: vm_inv_def struct_inv_def queue_inv_def FRAMES_def)
    then obtain e q' where d: "dequeue (queue s) = Inr (e, q')" "0 \<le> e" "e < FRAMES"
      "queue_inv q'" "size_q q' = 63"
      using dequeue_inv[of "queue s"] by auto
    show ?thesis using False fifo d fp by (simp add: select_frame_def FRAMES_def)
  next
    case lru: False
    have "0 \<le> get_least_recently_used_element s \<and> get_least_recently_used_element s < FRAMES"
      unfolding get_least_recently_used_element_def
      by (rule lru_scan_range) (simp_all add: FRAMES_def)
    then show ?thesis using False lru assms
      by (simp add: select_frame_def vm_inv_def struct_inv_def)
  qed
qed

lemma page_fault_ok:
  assumes "vm_inv rp s"
  shows "\<exists>pp how s1. page_fault rp bk s lp = Inr (pp, how, s1) \<and> 0 \<le> pp \<and> pp < FRAMES \<and>
           tlb s1 = tlb s \<and> tlbindex s1 = tlbindex s \<and> pt_ok (pagetable s1) \<and>
           recentUsages s1 = recentUsages s \<and>
           time_count s1 = time_count s \<and> total_addresses s1 = total_addresses s \<and>
           queue_inv (queue s1) \<and> uint (free_page s1) \<le> FRAMES \<and>
           (rp = 0 \<longrightarrow> uint (free_page s1) \<le>
              (if size_q (queue s1) = 64 then 64 else size_q (queue s1) + 1))"
proof -
  have "vm_inv rp (s\<lparr>page_faults := page_faults s + 1\<rparr>)"
    using assms by (simp add: vm_inv_def struct_inv_def)
  from select_frame_ok[OF this] obtain pp how s1 where
    sf: "select_frame rp (s\<lparr>page_faults := page_faults s + 1\<rparr>) = Inr (pp, how, s1)"
    and pp: "0 \<le> pp" "pp < FRAMES"
    and rest: "tlb s1 = tlb s" "tlbindex s1 = tlbindex s" "pagetable s1 = pagetable s"
      "recentUsages s1 = recentUsages s" "time_count s1 = time_count s"
      "total_addresses s1 = total_addresses s" "queue_inv (queue s1)"
      "uint (free_page s1) \<le> FRAMES"
      "rp = 0 \<longrightarrow> uint (free_page s1) \<le>
              (if size_q (queue s1) = 64 then 64 else size_q (queue s1) + 1)"
    by auto
  have "pt_ok (pagetable s)" using assms by (simp add: vm_inv_def struct_inv_def)
  then have "pt_ok ((clear_owner (pagetable s1) pp 0)[nat lp := pp])"
    using pt_ok_bind pp rest(3) by simp
  then show ?thesis using sf pp rest
    by (auto simp: page_fault_def load_page_def FRAMES_def)
qed

lemma resolve_ok:
  assumes "vm_inv rp s" "0 \<le> lp" "lp < 256"
  shows "\<exists>pp how s1. resolve rp bk s lp = Inr (pp, how, s1) \<and> 0 \<le> pp \<and> pp < FRAMES \<and>
           struct_inv s1 \<and> time_count s1 = time_count s \<and>
           total_addresses s1 = total_addresses s \<and>
           (rp = 0 \<longrightarrow> uint (free_page s1) \<le>
              (if size_q (queue s1) = 64 then 64 else size_q (queue s1) + 1))"
proof -
  have si: "tlb_ok (tlb s)" "pt_ok (pagetable s)" "length (recentUsages s) = 64"
    "queue_inv (queue s)" "uint (free_page s) \<le> FRAMES"
    "rp = 0 \<longrightarrow> uint (free_page s) \<le> size_q (queue s)"
    using assms(1) by (simp_all add: vm_inv_def struct_inv_def)
  show ?thesis
  proof (cases "search_tlb s (word_of_int lp) = - 1")
    case hit: False
    then show ?thesis using search_tlb_range[OF si(1), of "word_of_int lp"] si
      by (auto simp: resolve_def Let_def struct_inv_def FRAMES_def)
  next
    case miss: True
    have "pagetable s ! nat lp \<in> set (pagetable s)"
      using si(2) assms(2,3) by (simp add: pt_ok_def)
    then have rng: "pagetable s ! nat lp = - 1 \<or>
        (0 \<le> pagetable s ! nat lp \<and> pagetable s ! nat lp < FRAMES)"
      using si(2) unfolding pt_ok_def by blast
    show ?thesis
    proof (cases "pagetable s ! nat lp = - 1")
      case tablehit: False
      then show ?thesis using miss rng si tlb_ok_update[OF si(1)]
        by (auto simp: resolve_def Let_def struct_inv_def add_to_tlb_def FRAMES_def)
    next
      case fault: True
      from page_fault_ok[OF assms(1), of bk lp] obtain pp how s1 where
        pf: "page_fault rp bk s lp = Inr (pp, how, s1)" and pp: "0 \<le> pp" "pp < FRAMES"
        and rest: "tlb s1 = tlb s" "pt_ok (pagetable s1)" "recentUsages s1 = recentUsages s"
          "time_count s1 = time_count s" "total_addresses s1 = total_addresses s"
          "queue_inv (queue s1)" "uint (free_page s1) \<le> FRAMES"
          "rp = 0 \<longrightarrow> uint (free_page s1) \<le>
              (if size_q (queue s1) = 64 then 64 else size_q (queue s1) + 1)"
        by auto
      show ?thesis using miss fault pf pp rest si tlb_ok_update[OF si(1) pp]
        by (auto simp: resolve_def Let_def struct_inv_def add_to_tlb_def FRAMES_def)
    qed
  qed
qed

lemma translate_total:
  assumes "vm_inv rp s" "time_count s < INT_MAX" "total_addresses s < INT_MAX"
  shows "\<exists>s' l. translate rp bk s a = Inr (s', l) \<and> vm_inv rp s' \<and>
           time_count s' = time_count s + 1 \<and> total_addresses s' = total_addresses s + 1 \<and>
           0 \<le> out_frame l \<and> out_frame l < FRAMES"
proof -
  define s0 where "s0 = s\<lparr>time_count := time_count s + 1,
                            total_addresses := total_addresses s + 1\<rparr>"
  have "vm_inv rp s0" using assms(1) by (simp add: s0_def vm_inv_def struct_inv_def)
  from resolve_ok[OF this, of "page_of a" bk] page_of_range[of a]
  obtain pp how s1 where
    r: "resolve rp bk s0 (page_of a) = Inr (pp, how, s1)" and pp: "0 \<le> pp" "pp < FRAMES"
    and s1: "struct_inv s1" "time_count s1 = time_count s0"
      "total_addresses s1 = total_addresses s0"
      "rp = 0 \<longrightarrow> uint (free_page s1) \<le>
              (if size_q (queue s1) = 64 then 64 else size_q (queue s1) + 1)"
    by auto
  have qi: "queue_inv (queue s1)" using s1(1) by (simp add: struct_inv_def)
  obtain s2 where fu: "frame_used rp s1 pp = Inr s2" and s2: "vm_inv rp s2"
    "time_count s2 = time_count s0" "total_addresses s2 = total_addresses s0"
  proof (cases "rp = 0")
    case True
    show ?thesis
      using that[of "s1\<lparr>queue := enqueue (queue s1) pp\<rparr>"] True s1 enqueue_inv[OF qi pp]
      by (simp add: frame_used_def vm_inv_def struct_inv_def)
  next
    case False
    show ?thesis
      using that[of "s1\<lparr>recentUsages := (recentUsages s1)[nat pp := time_count s1]\<rparr>"]
        False s1 pp
      by (simp add: frame_used_def vm_inv_def struct_inv_def)
  qed
  have "0 \<le> pp * PAGE_SIZE + offset_of a \<and> pp * PAGE_SIZE + offset_of a < PHYSICAL_MEMORY_SIZE"
    using pp offset_of_range[of a] by (simp add: consts_defs)
  then obtain l where e: "emit s2 a pp how = Inr l" "out_frame l = pp"
    by (simp add: emit_def Let_def)
  show ?thesis
    using assms(2,3) r fu e s2 pp
    by (simp add: translate_def Let_def s0_def[symmetric]) (simp add: s0_def)
qed


lemma run_snoc:
  "run rp bk s (as @ [a]) =
     (case run rp bk s as of
        Inl e \<Rightarrow> Inl e
      | Inr (s1, ls) \<Rightarrow>
          (case translate rp bk s1 a of
             Inl e \<Rightarrow> Inl e
           | Inr (s2, l) \<Rightarrow> Inr (s2, ls @ [l])))"
  by (induction as arbitrary: s) (auto split: sum.splits)

lemma run_append:
  "run rp bk s (as @ bs) =
     (case run rp bk s as of
        Inl e \<Rightarrow> Inl e
      | Inr (s1, ls) \<Rightarrow>
          (case run rp bk s1 bs of
             Inl e \<Rightarrow> Inl e
           | Inr (s2, ls') \<Rightarrow> Inr (s2, ls @ ls')))"
  by (induction as arbitrary: s) (auto split: sum.splits)

lemma run_invariant:
  assumes "run rp bk s0 as = Inr (s, ls)"
    and "P s0 []"
    and "\<And>s ls a s' l. P s ls \<Longrightarrow> translate rp bk s a = Inr (s', l) \<Longrightarrow> P s' (ls @ [l])"
  shows "P s ls"
  using assms(1)
proof (induction as arbitrary: s ls rule: rev_induct)
  case Nil
  then show ?case using assms(2) by simp
next
  case (snoc a as)
  then show ?case using assms(3)
    by (auto simp: run_snoc split: sum.splits)
qed

lemma vm_inv_init: "vm_inv rp init_state"
  by (simp add: vm_inv_def struct_inv_def init_state_def tlb_ok_def pt_ok_def queue_inv_def
      initQueue_def consts_defs)

lemma run_total:
  assumes "vm_inv rp s" "time_count s + int (length as) \<le> INT_MAX"
    "total_addresses s + int (length as) \<le> INT_MAX"
  shows "\<exists>s' ls. run rp bk s as = Inr (s', ls) \<and> vm_inv rp s' \<and> length ls = length as \<and>
           time_count s' = time_count s + int (length as) \<and>
           total_addresses s' = total_addresses s + int (length as) \<and>
           (\<forall>l\<in>set ls. 0 \<le> out_frame l \<and> out_frame l < FRAMES)"
  using assms
proof (induction as arbitrary: s)
  case Nil
  then show ?case by simp
next
  case (Cons a as)
  from translate_total[OF Cons.prems(1), of bk a] Cons.prems(2,3)
  obtain s1 l where t: "translate rp bk s a = Inr (s1, l)" "vm_inv rp s1"
    "time_count s1 = time_count s + 1" "total_addresses s1 = total_addresses s + 1"
    "0 \<le> out_frame l" "out_frame l < FRAMES"
    by auto
  from Cons.IH[OF t(2)] t(3,4) Cons.prems(2,3)
  obtain s' ls where r: "run rp bk s1 as = Inr (s', ls)" "vm_inv rp s'" "length ls = length as"
    "time_count s' = time_count s1 + int (length as)"
    "total_addresses s' = total_addresses s1 + int (length as)"
    "\<forall>l\<in>set ls. 0 \<le> out_frame l \<and> out_frame l < FRAMES"
    by auto
  show ?case using t r by simp
qed

lemma run_init_total:
  assumes "int (length as) \<le> INT_MAX"
  shows "\<exists>s ls. run rp bk init_state as = Inr (s, ls) \<and> vm_inv rp s \<and> length ls = length as \<and>
           time_count s = int (length as) \<and>
           (\<forall>l\<in>set ls. 0 \<le> out_frame l \<and> out_frame l < FRAMES)"
proof -
  have "time_count init_state = 0" "total_addresses init_state = 0"
    by (simp_all add: init_state_def)
  then show ?thesis using run_total[OF vm_inv_init, of as rp bk] assms by auto
qed

subsection \<open>Properties of one translation\<close>

lemma m255: "(255::int) = mask 8" by (simp add: mask_eq_exp_minus_1)

lemma offset_bits_kept: "(push_bit 8 (p::int) OR (a AND 255)) AND 255 = a AND 255"
  unfolding m255 by (simp flip: take_bit_eq_mask add: take_bit_push_bit)

lemma emit_line:
  assumes "emit s a pp how = Inr l"
  shows "out_logical_address l = a \<and> out_frame l = pp \<and> out_path l = how \<and>
         out_physical_address l = push_bit OFFSET_BITS pp OR offset_of a \<and>
         out_value l = sint (main_memory s (pp * PAGE_SIZE + offset_of a))"
  using assms by (auto simp: emit_def Let_def split: if_splits)

lemma translate_line:
  assumes "translate rp bk s a = Inr (s', l)"
  shows "out_logical_address l = a \<and>
         out_physical_address l = push_bit OFFSET_BITS (out_frame l) OR offset_of a \<and>
         out_value l = sint (main_memory s' (out_frame l * PAGE_SIZE + offset_of a))"
  using assms emit_line
  by (fastforce simp: translate_def Let_def split: if_splits sum.splits prod.splits)

lemma run_lines:
  assumes "run rp bk s as = Inr (s', ls)"
  shows "length ls = length as \<and>
         (\<forall>i<length as. \<exists>s1 s2. translate rp bk s1 (as ! i) = Inr (s2, ls ! i))"
  using assms
proof (induction as arbitrary: s ls)
  case Nil
  then show ?case by simp
next
  case (Cons a as)
  from Cons.prems obtain s1 l ls' where
    t: "translate rp bk s a = Inr (s1, l)" and r: "run rp bk s1 as = Inr (s', ls')"
    and ls: "ls = l # ls'"
    by (auto split: sum.splits)
  from Cons.IH[OF r] have ih: "length ls' = length as"
    "\<forall>i<length as. \<exists>s1 s2. translate rp bk s1 (as ! i) = Inr (s2, ls' ! i)"
    by simp_all
  have "\<exists>s1 s2. translate rp bk s1 ((a # as) ! i) = Inr (s2, ls ! i)"
    if "i < length (a # as)" for i
  proof (cases i)
    case 0
    then show ?thesis using t ls by auto
  next
    case (Suc j)
    then show ?thesis using ih(2) that ls by simp
  qed
  then show ?case using ih(1) ls by simp
qed

lemma select_frame_cases:
  assumes "select_frame rp s = Inr (pp, how, s1)"
  shows "page_faults s1 = page_faults s \<and> tlb s1 = tlb s \<and> tlbindex s1 = tlbindex s \<and>
         pagetable s1 = pagetable s \<and> main_memory s1 = main_memory s \<and>
         (if uint (free_page s) < FRAMES
          then how = FaultFree \<and> pp = uint (free_page s) \<and> free_page s1 = free_page s + 1
          else how = FaultVictim \<and> free_page s1 = free_page s)"
  using assms by (auto simp: select_frame_def split: if_splits sum.splits)

lemma page_fault_cases:
  assumes "page_fault rp bk s lp = Inr (pp, how, s1)"
  shows "page_faults s1 = page_faults s + 1 \<and> tlb s1 = tlb s \<and> tlbindex s1 = tlbindex s \<and>
         0 \<le> pp \<and> pp < FRAMES \<and>
         pagetable s1 = (clear_owner (pagetable s) pp 0)[nat lp := pp] \<and>
         load_page bk (main_memory s) pp lp = Inr (main_memory s1) \<and>
         (if uint (free_page s) < FRAMES
          then how = FaultFree \<and> pp = uint (free_page s) \<and> free_page s1 = free_page s + 1
          else how = FaultVictim \<and> free_page s1 = free_page s)"
proof -
  from assms obtain s0 where
    sf: "select_frame rp (s\<lparr>page_faults := page_faults s + 1\<rparr>) = Inr (pp, how, s0)"
    by (auto simp: page_fault_def split: sum.splits)
  then obtain m where lp: "load_page bk (main_memory s0) pp lp = Inr m"
    and s1: "s1 = s0\<lparr>main_memory := m,
                    pagetable := (clear_owner (pagetable s0) pp 0)[nat lp := pp]\<rparr>"
    using assms by (auto simp: page_fault_def split: sum.splits)
  have "0 \<le> pp \<and> pp < FRAMES" using lp by (auto simp: load_page_def split: if_splits)
  then show ?thesis using select_frame_cases[OF sf] lp s1 by (simp split: if_splits)
qed

lemma resolve_cases:
  assumes "resolve rp bk s lp = Inr (pp, how, s1)"
  shows "(how = TlbHit \<and> page_faults s1 = page_faults s \<and> free_page s1 = free_page s \<and>
            pagetable s1 = pagetable s \<and> main_memory s1 = main_memory s) \<or>
         (how = TableHit \<and> page_faults s1 = page_faults s \<and> free_page s1 = free_page s \<and>
            pagetable s1 = pagetable s \<and> main_memory s1 = main_memory s) \<or>
         (how = FaultFree \<and> uint (free_page s) < FRAMES \<and> pp = uint (free_page s) \<and>
            free_page s1 = free_page s + 1 \<and> page_faults s1 = page_faults s + 1 \<and>
            0 \<le> pp \<and> pp < FRAMES \<and> pagetable s ! nat lp = - 1 \<and>
            pagetable s1 = (clear_owner (pagetable s) pp 0)[nat lp := pp] \<and>
            load_page bk (main_memory s) pp lp = Inr (main_memory s1)) \<or>
         (how = FaultVictim \<and> \<not> uint (free_page s) < FRAMES \<and>
            free_page s1 = free_page s \<and> page_faults s1 = page_faults s + 1 \<and>
            0 \<le> pp \<and> pp < FRAMES \<and> pagetable s ! nat lp = - 1 \<and>
            pagetable s1 = (clear_owner (pagetable s) pp 0)[nat lp := pp] \<and>
            load_page bk (main_memory s) pp lp = Inr (main_memory s1))"
proof (cases "search_tlb s (word_of_int lp) = - 1")
  case False
  then show ?thesis using assms by (auto simp: resolve_def Let_def)
next
  case miss: True
  show ?thesis
  proof (cases "pagetable s ! nat lp = - 1")
    case False
    then show ?thesis using assms miss by (auto simp: resolve_def Let_def add_to_tlb_def)
  next
    case True
    then obtain s0 where pf: "page_fault rp bk s lp = Inr (pp, how, s0)"
      and s1: "s1 = add_to_tlb s0 (word_of_int lp) (word_of_int pp)"
      using assms miss by (auto simp: resolve_def Let_def split: sum.splits)
    show ?thesis using page_fault_cases[OF pf] True s1
      by (simp add: add_to_tlb_def split: if_splits)
  qed
qed

lemma frame_used_fields:
  assumes "frame_used rp s pp = Inr s'"
  shows "page_faults s' = page_faults s \<and> free_page s' = free_page s \<and>
         pagetable s' = pagetable s \<and> main_memory s' = main_memory s"
  using assms by (auto simp: frame_used_def split: if_splits)

lemma translate_cases:
  assumes "translate rp bk s a = Inr (s', l)"
  shows "(out_path l = TlbHit \<and> page_faults s' = page_faults s \<and> free_page s' = free_page s \<and>
            pagetable s' = pagetable s \<and> main_memory s' = main_memory s) \<or>
         (out_path l = TableHit \<and> page_faults s' = page_faults s \<and>
            free_page s' = free_page s \<and>
            pagetable s' = pagetable s \<and> main_memory s' = main_memory s) \<or>
         (out_path l = FaultFree \<and> uint (free_page s) < FRAMES \<and>
            out_frame l = uint (free_page s) \<and>
            free_page s' = free_page s + 1 \<and> page_faults s' = page_faults s + 1 \<and>
            0 \<le> out_frame l \<and> out_frame l < FRAMES \<and> pagetable s ! nat (page_of a) = - 1 \<and>
            pagetable s' = (clear_owner (pagetable s) (out_frame l) 0)
                             [nat (page_of a) := out_frame l] \<and>
            load_page bk (main_memory s) (out_frame l) (page_of a) = Inr (main_memory s')) \<or>
         (out_path l = FaultVictim \<and> \<not> uint (free_page s) < FRAMES \<and>
            free_page s' = free_page s \<and> page_faults s' = page_faults s + 1 \<and>
            0 \<le> out_frame l \<and> out_frame l < FRAMES \<and> pagetable s ! nat (page_of a) = - 1 \<and>
            pagetable s' = (clear_owner (pagetable s) (out_frame l) 0)
                             [nat (page_of a) := out_frame l] \<and>
            load_page bk (main_memory s) (out_frame l) (page_of a) = Inr (main_memory s'))"
proof -
  define s0 where "s0 = s\<lparr>time_count := time_count s + 1,
                            total_addresses := total_addresses s + 1\<rparr>"
  from assms obtain pp how s1 where
    r: "resolve rp bk s0 (page_of a) = Inr (pp, how, s1)"
    and fu: "frame_used rp s1 pp = Inr s'"
    and e: "emit s' a pp how = Inr l"
    by (auto simp: translate_def Let_def s0_def split: if_splits sum.splits)
  have l: "out_frame l = pp" "out_path l = how" using emit_line[OF e] by simp_all
  show ?thesis
    using resolve_cases[OF r] frame_used_fields[OF fu] unfolding l
    by (simp add: s0_def)
qed


subsection \<open>Frame allocation\<close>

lemma faults_of_snoc:
  "faults_of (ls @ [l]) = (if is_fault l then faults_of ls @ [l] else faults_of ls)"
  by (simp add: faults_of_def)

lemma alloc_invariant:
  assumes "run rp bk init_state as = Inr (s, ls)"
  shows "page_faults s = int (length (faults_of ls)) \<and>
         uint (free_page s) = min FRAMES (page_faults s) \<and>
         (\<forall>i<length (faults_of ls).
            (i < nat FRAMES \<longrightarrow>
               out_path (faults_of ls ! i) = FaultFree \<and> out_frame (faults_of ls ! i) = int i) \<and>
            (out_path (faults_of ls ! i) = FaultVictim \<longrightarrow> nat FRAMES \<le> i))"
proof (rule run_invariant[OF assms])
  show "page_faults init_state = int (length (faults_of [])) \<and>
        uint (free_page init_state) = min FRAMES (page_faults init_state) \<and>
        (\<forall>i<length (faults_of []).
            (i < nat FRAMES \<longrightarrow>
               out_path (faults_of [] ! i) = FaultFree \<and> out_frame (faults_of [] ! i) = int i) \<and>
            (out_path (faults_of [] ! i) = FaultVictim \<longrightarrow> nat FRAMES \<le> i))"
    by (simp add: init_state_def faults_of_def FRAMES_def)
next
  fix s ls a s' l
  assume inv: "page_faults s = int (length (faults_of ls)) \<and>
         uint (free_page s) = min FRAMES (page_faults s) \<and>
         (\<forall>i<length (faults_of ls).
            (i < nat FRAMES \<longrightarrow>
               out_path (faults_of ls ! i) = FaultFree \<and> out_frame (faults_of ls ! i) = int i) \<and>
            (out_path (faults_of ls ! i) = FaultVictim \<longrightarrow> nat FRAMES \<le> i))"
    and t: "translate rp bk s a = Inr (s', l)"
  let ?n = "length (faults_of ls)"
  have pf: "page_faults s = int ?n" and fp: "uint (free_page s) = min FRAMES (page_faults s)"
    and old: "\<And>i. i < ?n \<Longrightarrow>
            (i < nat FRAMES \<longrightarrow>
               out_path (faults_of ls ! i) = FaultFree \<and> out_frame (faults_of ls ! i) = int i) \<and>
            (out_path (faults_of ls ! i) = FaultVictim \<longrightarrow> nat FRAMES \<le> i)"
    using inv by simp_all
  consider (hit) "\<not> is_fault l" "page_faults s' = page_faults s" "free_page s' = free_page s"
    | (free) "out_path l = FaultFree" "uint (free_page s) < FRAMES"
        "out_frame l = uint (free_page s)" "free_page s' = free_page s + 1"
        "page_faults s' = page_faults s + 1"
    | (victim) "out_path l = FaultVictim" "\<not> uint (free_page s) < FRAMES"
        "free_page s' = free_page s" "page_faults s' = page_faults s + 1"
    using translate_cases[OF t] by (auto simp: is_fault_def)
  then show "page_faults s' = int (length (faults_of (ls @ [l]))) \<and>
         uint (free_page s') = min FRAMES (page_faults s') \<and>
         (\<forall>i<length (faults_of (ls @ [l])).
            (i < nat FRAMES \<longrightarrow>
               out_path (faults_of (ls @ [l]) ! i) = FaultFree \<and>
               out_frame (faults_of (ls @ [l]) ! i) = int i) \<and>
            (out_path (faults_of (ls @ [l]) ! i) = FaultVictim \<longrightarrow> nat FRAMES \<le> i))"
  proof cases
    case hit
    then show ?thesis using inv by (simp add: faults_of_snoc)
  next
    case free
    have lt: "page_faults s < FRAMES" and eq: "uint (free_page s) = page_faults s"
      using fp free(2) by (simp_all add: min_def split: if_splits)
    have "uint (free_page s + 1) = uint (free_page s) + 1"
      using free(2) by (simp add: uint_succ8 FRAMES_def)
    then have fp': "uint (free_page s') = min FRAMES (page_faults s')"
      using free lt eq by simp
    have f: "faults_of (ls @ [l]) = faults_of ls @ [l]"
      using free(1) by (simp add: faults_of_snoc is_fault_def)
    have new: "out_frame l = int ?n" "?n < nat FRAMES"
      using free(3) eq pf lt by simp_all
    show ?thesis unfolding f using fp' free(1,5) pf old new
      by (auto simp: nth_append)
  next
    case victim
    have ge: "FRAMES \<le> page_faults s" using fp victim(2) by (simp add: min_def split: if_splits)
    then have fp': "uint (free_page s') = min FRAMES (page_faults s')"
      using fp victim by simp
    have f: "faults_of (ls @ [l]) = faults_of ls @ [l]"
      using victim(1) by (simp add: faults_of_snoc is_fault_def)
    have new: "nat FRAMES \<le> ?n" using ge pf by simp
    show ?thesis unfolding f using fp' victim(1,4) pf old new
      by (auto simp: nth_append)
  qed
qed

text \<open>
  C5. Frame allocation: in every run, the i-th page fault, for i from 1 to \<open>FRAMES\<close>, takes
  the free frame i-1 (the list of faults is indexed from 0), and a fault that asks the
  replacement policy for a victim has at least \<open>FRAMES\<close> faults before it.
\<close>

theorem frame_allocation:
  assumes "run rp backing init_state as = Inr (s, ls)" and "i < length (faults_of ls)"
  shows "(i < nat FRAMES \<longrightarrow>
            out_path (faults_of ls ! i) = FaultFree \<and> out_frame (faults_of ls ! i) = int i) \<and>
         (out_path (faults_of ls ! i) = FaultVictim \<longrightarrow> nat FRAMES \<le> i)"
  using alloc_invariant[OF assms(1)] assms(2) by blast

theorem frame_allocation_witness:
  "\<exists>s ls. run 0 zero_backing init_state [0, 256] = Inr (s, ls) \<and> 1 < length (faults_of ls) \<and>
     (1::nat) < nat FRAMES \<and>
     out_path (faults_of ls ! 1) = FaultFree \<and> out_frame (faults_of ls ! 1) = int 1"
proof -
  obtain s ls where r: "run 0 zero_backing init_state [0, 256] = Inr (s, ls)"
    using run_init_total[of "[0, 256]" 0 zero_backing] by (auto simp: INT_MAX_def)
  have "map out_path (lines_of (run 0 zero_backing init_state [0, 256])) = [FaultFree, FaultFree]"
    by code_simp
  then have "map out_path ls = [FaultFree, FaultFree]" using r by (simp add: lines_of_def)
  then have len: "1 < length (faults_of ls)"
    by (auto simp: faults_of_def is_fault_def map_eq_Cons_conv)
  from frame_allocation[OF r len] show ?thesis using r len by (auto simp: FRAMES_def)
qed


subsection \<open>One owner per frame\<close>

lemma clear_owner_nth:
  "clear_owner pt pp k ! j = pt ! j \<or> (j < length pt \<and> clear_owner pt pp k ! j = - 1)"
proof (induction pt pp k rule: clear_owner.induct)
  case (1 pt pp k)
  show ?case
  proof (cases "k < PAGES")
    case False
    then show ?thesis by (subst (1 2) clear_owner.simps) simp
  next
    case True
    show ?thesis
    proof (cases "pt ! nat k = pp")
      case found: True
      have "pt[nat k := - 1] ! j = pt ! j \<or> (j < length pt \<and> pt[nat k := - 1] ! j = - 1)"
        by (cases "j = nat k"; cases "j < length pt") (simp_all add: list_update_beyond)
      then show ?thesis using True found by (subst (1 2) clear_owner.simps) simp
    next
      case False
      then show ?thesis using True 1 by (subst (1 2) clear_owner.simps) simp
    qed
  qed
qed

lemma clear_owner_gone:
  assumes "one_owner pt" "length pt = 256" "pp \<noteq> - 1" "0 \<le> k"
    "\<forall>j. j < nat k \<longrightarrow> pt ! j \<noteq> pp" "j < 256"
  shows "clear_owner pt pp k ! j \<noteq> pp"
  using assms
proof (induction pt pp k rule: clear_owner.induct)
  case (1 pt pp k)
  show ?case
  proof (cases "k < PAGES")
    case False
    then have "j < nat k" using 1(7) by (simp add: PAGES_def)
    then show ?thesis using False 1(6) by (subst clear_owner.simps) simp
  next
    case True
    show ?thesis
    proof (cases "pt ! nat k = pp")
      case found: True
      have "pt[nat k := - 1] ! j \<noteq> pp"
      proof (cases "j = nat k")
        case True
        then show ?thesis using 1(3,4,7) by simp
      next
        case False
        have "nat k < length pt" using True 1(3,5) by (simp add: PAGES_def)
        then have "pt ! j \<noteq> pt ! nat k"
          using 1(2,3,4,7) False found unfolding one_owner_def
          by (metis (no_types, lifting))
        then show ?thesis using False found by simp
      qed
      then show ?thesis using True found by (subst clear_owner.simps) simp
    next
      case False
      have "\<forall>j. j < nat (k + 1) \<longrightarrow> pt ! j \<noteq> pp"
      proof (intro allI impI)
        fix i assume "i < nat (k + 1)"
        then have "i < nat k \<or> i = nat k" using 1(5) by auto
        then show "pt ! i \<noteq> pp" using 1(6) False by auto
      qed
      then have "clear_owner pt pp (k + 1) ! j \<noteq> pp"
        using 1(1)[OF True False 1(2,3,4)] 1(5,7) by simp
      then show ?thesis using True False by (subst clear_owner.simps) simp
    qed
  qed
qed

lemma one_owner_bind:
  assumes "one_owner pt" "length pt = 256" "pp \<noteq> - 1" "lp < 256"
  shows "one_owner ((clear_owner pt pp 0)[lp := pp])"
proof -
  let ?c = "clear_owner pt pp 0"
  have gone: "\<And>j. j < 256 \<Longrightarrow> ?c ! j \<noteq> pp"
    using clear_owner_gone[OF assms(1,2,3), of 0] by simp
  have keep: "\<And>j. ?c ! j = pt ! j \<or> ?c ! j = - 1"
    using clear_owner_nth[of pt pp 0] by blast
  have "?c[lp := pp] ! p1 \<noteq> ?c[lp := pp] ! p2"
    if "p1 < 256" "p2 < 256" "p1 \<noteq> p2" "?c[lp := pp] ! p1 \<noteq> - 1" "?c[lp := pp] ! p2 \<noteq> - 1"
    for p1 p2
  proof (cases "p1 = lp")
    case True
    then show ?thesis using that gone[of p2] assms(2,4) by simp
  next
    case n1: False
    show ?thesis
    proof (cases "p2 = lp")
      case True
      then show ?thesis using that gone[of p1] assms(2,4) by simp
    next
      case n2: False
      have "?c ! p1 = pt ! p1" "?c ! p2 = pt ! p2"
        using keep[of p1] keep[of p2] that n1 n2 by auto
      moreover have "pt ! p1 \<noteq> pt ! p2"
        using assms(1,2) that n1 n2 calculation unfolding one_owner_def
        by (metis (no_types, lifting) nth_list_update_neq)
      ultimately show ?thesis using n1 n2 by simp
    qed
  qed
  then show ?thesis using assms(2) unfolding one_owner_def by simp
qed

lemma one_owner_step:
  assumes "one_owner (pagetable s)" "length (pagetable s) = 256"
    "translate rp bk s a = Inr (s', l)"
  shows "one_owner (pagetable s') \<and> length (pagetable s') = 256"
proof -
  have lp: "nat (page_of a) < 256" using page_of_range[of a] by linarith
  have "one_owner ((clear_owner (pagetable s) pp 0)[nat (page_of a) := pp])"
    if "0 \<le> pp" for pp
    using one_owner_bind[OF assms(1,2) _ lp, of pp] that by simp
  then show ?thesis using translate_cases[OF assms(3)] assms(1,2) by auto
qed

lemma one_owner_reached:
  assumes "run rp bk init_state as = Inr (s, ls)"
  shows "one_owner (pagetable s) \<and> length (pagetable s) = 256"
proof (rule run_invariant[OF assms])
  show "one_owner (pagetable init_state) \<and> length (pagetable init_state) = 256"
    by (simp add: init_state_def one_owner_def PAGES_def)
next
  fix s ls a s' l
  assume "one_owner (pagetable s) \<and> length (pagetable s) = 256"
    and "translate rp bk s a = Inr (s', l)"
  then show "one_owner (pagetable s') \<and> length (pagetable s') = 256"
    using one_owner_step by blast
qed

lemma fault_binds:
  assumes "one_owner (pagetable s)" "length (pagetable s) = 256"
    "translate rp bk s a = Inr (s', l)" "is_fault l"
  shows "pagetable s' ! nat (page_of a) = out_frame l \<and>
         (\<forall>p<256. p \<noteq> nat (page_of a) \<longrightarrow> pagetable s' ! p \<noteq> out_frame l)"
proof -
  have lp: "nat (page_of a) < 256" using page_of_range[of a] by linarith
  from translate_cases[OF assms(3)] assms(4)
  have pt: "pagetable s' = (clear_owner (pagetable s) (out_frame l) 0)
                             [nat (page_of a) := out_frame l]"
    and f: "0 \<le> out_frame l"
    by (auto simp: is_fault_def)
  have "clear_owner (pagetable s) (out_frame l) 0 ! p \<noteq> out_frame l" if "p < 256" for p
    using clear_owner_gone[OF assms(1,2), of "out_frame l" 0 p] f that by simp
  then show ?thesis unfolding pt using lp assms(2) by simp
qed

text \<open>
  C3. For every input of at most \<open>INT_MAX\<close> addresses the loop runs to the end, and in the
  state it reaches no two pages of the page table are bound to the same frame. A further
  translation keeps this; when it is a page fault, the faulting page is bound to the
  frame and no other page is.
\<close>

theorem page_table_one_owner:
  assumes "int (length as) \<le> INT_MAX"
  shows "\<exists>s ls. run rp backing init_state as = Inr (s, ls) \<and> length (pagetable s) = 256 \<and>
           one_owner (pagetable s) \<and>
           (\<forall>a s' l. translate rp backing s a = Inr (s', l) \<longrightarrow>
              one_owner (pagetable s') \<and>
              (is_fault l \<longrightarrow>
                 pagetable s' ! nat (page_of a) = out_frame l \<and>
                 (\<forall>p<256. p \<noteq> nat (page_of a) \<longrightarrow> pagetable s' ! p \<noteq> out_frame l)))"
proof -
  from run_init_total[OF assms, of rp backing] obtain s ls where
    r: "run rp backing init_state as = Inr (s, ls)" by blast
  note o = one_owner_reached[OF r]
  have "one_owner (pagetable s') \<and>
        (is_fault l \<longrightarrow>
           pagetable s' ! nat (page_of a) = out_frame l \<and>
           (\<forall>p<256. p \<noteq> nat (page_of a) \<longrightarrow> pagetable s' ! p \<noteq> out_frame l))"
    if "translate rp backing s a = Inr (s', l)" for a s' l
    using one_owner_step[OF o[THEN conjunct1] o[THEN conjunct2] that]
      fault_binds[OF o[THEN conjunct1] o[THEN conjunct2] that] by blast
  then show ?thesis using r o by blast
qed

theorem page_table_one_owner_witness:
  "int (length [0, 256, 0 :: int]) \<le> INT_MAX \<and>
   (\<exists>s ls. run 0 zero_backing init_state [0, 256, 0] = Inr (s, ls) \<and>
           length (pagetable s) = 256 \<and> one_owner (pagetable s) \<and>
           (\<forall>a s' l. translate 0 zero_backing s a = Inr (s', l) \<longrightarrow>
              one_owner (pagetable s') \<and>
              (is_fault l \<longrightarrow>
                 pagetable s' ! nat (page_of a) = out_frame l \<and>
                 (\<forall>p<256. p \<noteq> nat (page_of a) \<longrightarrow> pagetable s' ! p \<noteq> out_frame l))))"
  using page_table_one_owner[of "[0, 256, 0]" 0 zero_backing] by (simp add: INT_MAX_def)

subsection \<open>Contents of a loaded frame\<close>

lemma load_page_bytes:
  assumes "load_page bk m pp lp = Inr m'"
  shows "(\<forall>ofs. 0 \<le> ofs \<and> ofs < PAGE_SIZE \<longrightarrow>
            m' (pp * PAGE_SIZE + ofs) = bk (lp * PAGE_SIZE + ofs)) \<and>
         (\<forall>f ofs. f \<noteq> pp \<and> 0 \<le> ofs \<and> ofs < PAGE_SIZE \<longrightarrow>
            m' (f * PAGE_SIZE + ofs) = m (f * PAGE_SIZE + ofs))"
proof -
  have m': "m' = (\<lambda>a. if pp * PAGE_SIZE \<le> a \<and> a < pp * PAGE_SIZE + PAGE_SIZE
                 then bk (lp * PAGE_SIZE + (a - pp * PAGE_SIZE)) else m a)"
    using assms by (auto simp: load_page_def split: if_splits)
  have out: "\<not> (pp * 256 \<le> f * 256 + ofs \<and> f * 256 + ofs < pp * 256 + 256)"
    if "f \<noteq> pp" "0 \<le> ofs" "ofs < 256" for f ofs :: int
    using that by (cases "f < pp") auto
  show ?thesis unfolding m' using out by (auto simp: PAGE_SIZE_def)
qed

lemma translate_memory:
  assumes "translate rp bk s a = Inr (s', l)"
  shows "(is_fault l \<longrightarrow>
            (\<forall>ofs. 0 \<le> ofs \<and> ofs < PAGE_SIZE \<longrightarrow>
               main_memory s' (out_frame l * PAGE_SIZE + ofs) =
               bk (page_of a * PAGE_SIZE + ofs))) \<and>
         (\<forall>f ofs. \<not> (is_fault l \<and> out_frame l = f) \<and> 0 \<le> ofs \<and> ofs < PAGE_SIZE \<longrightarrow>
            main_memory s' (f * PAGE_SIZE + ofs) = main_memory s (f * PAGE_SIZE + ofs))"
  using translate_cases[OF assms] load_page_bytes[of bk "main_memory s" "out_frame l" "page_of a"]
  by (auto simp: is_fault_def)

lemma frame_kept:
  assumes "run rp bk s1 as = Inr (s2, ls)"
    and "\<forall>l\<in>set ls. is_fault l \<longrightarrow> out_frame l \<noteq> f"
    and "\<forall>ofs. 0 \<le> ofs \<and> ofs < PAGE_SIZE \<longrightarrow> main_memory s1 (f * PAGE_SIZE + ofs) = c ofs"
  shows "(\<forall>ofs. 0 \<le> ofs \<and> ofs < PAGE_SIZE \<longrightarrow> main_memory s2 (f * PAGE_SIZE + ofs) = c ofs) \<and>
         (\<forall>l\<in>set ls. out_frame l = f \<longrightarrow>
            out_value l = sint (c (offset_of (out_logical_address l))))"
  using assms
proof (induction as arbitrary: s1 ls)
  case Nil
  then show ?case by simp
next
  case (Cons a as)
  from Cons.prems(1) obtain s l ls' where
    t: "translate rp bk s1 a = Inr (s, l)" and r: "run rp bk s as = Inr (s2, ls')"
    and ls: "ls = l # ls'"
    by (auto split: sum.splits)
  have nf: "\<not> (is_fault l \<and> out_frame l = f)" using Cons.prems(2) ls by auto
  have mem: "\<forall>ofs. 0 \<le> ofs \<and> ofs < PAGE_SIZE \<longrightarrow> main_memory s (f * PAGE_SIZE + ofs) = c ofs"
    using translate_memory[OF t] nf Cons.prems(3) by simp
  have rest: "\<forall>l\<in>set ls'. is_fault l \<longrightarrow> out_frame l \<noteq> f" using Cons.prems(2) ls by simp
  note ih = Cons.IH[OF r rest mem]
  have "out_value l = sint (c (offset_of (out_logical_address l)))" if "out_frame l = f"
  proof -
    have "out_logical_address l = a"
      "out_value l = sint (main_memory s (out_frame l * PAGE_SIZE + offset_of a))"
      using translate_line[OF t] by simp_all
    then show ?thesis using mem that offset_of_range[of a] by (simp add: PAGE_SIZE_def)
  qed
  then show ?case using ih ls by simp
qed

text \<open>
  C7. Round trip of a page load: after a page fault has copied page \<open>page_of a\<close> into
  its frame, and for as long as no later page fault loads into that frame, every byte
  of the frame is the byte of the backing file at the same offset of the page, and every
  line printed for that frame shows the backing file's byte.
\<close>

theorem page_load_round_trip:
  assumes "translate rp backing s a = Inr (s1, l1)" and "is_fault l1"
    and "run rp backing s1 as = Inr (s2, ls)"
    and "\<forall>l\<in>set ls. is_fault l \<longrightarrow> out_frame l \<noteq> out_frame l1"
  shows "(\<forall>ofs. 0 \<le> ofs \<and> ofs < PAGE_SIZE \<longrightarrow>
            main_memory s2 (out_frame l1 * PAGE_SIZE + ofs) =
            backing (page_of a * PAGE_SIZE + ofs)) \<and>
         (\<forall>l\<in>set (l1 # ls). out_frame l = out_frame l1 \<longrightarrow>
            out_value l =
            sint (backing (page_of a * PAGE_SIZE + offset_of (out_logical_address l))))"
proof -
  have loaded: "\<forall>ofs. 0 \<le> ofs \<and> ofs < PAGE_SIZE \<longrightarrow>
      main_memory s1 (out_frame l1 * PAGE_SIZE + ofs) = backing (page_of a * PAGE_SIZE + ofs)"
    using translate_memory[OF assms(1)] assms(2) by simp
  have first: "out_value l1 =
      sint (backing (page_of a * PAGE_SIZE + offset_of (out_logical_address l1)))"
    using translate_line[OF assms(1)] loaded offset_of_range[of a] by (simp add: PAGE_SIZE_def)
  from frame_kept[OF assms(3,4), of "\<lambda>ofs. backing (page_of a * PAGE_SIZE + ofs)"] loaded first
  show ?thesis by simp
qed


theorem page_load_round_trip_witness:
  "\<exists>s1 l1 s2 ls.
     translate 1 ramp_backing init_state 261 = Inr (s1, l1) \<and> is_fault l1 \<and>
     run 1 ramp_backing s1 [0, 263] = Inr (s2, ls) \<and>
     (\<forall>l\<in>set ls. is_fault l \<longrightarrow> out_frame l \<noteq> out_frame l1) \<and>
     map out_frame (l1 # ls) = [0, 1, 0] \<and>
     map out_value (l1 # ls) = [5, 0, 7] \<and>
     main_memory s2 (out_frame l1 * PAGE_SIZE + 9) = ramp_backing (page_of 261 * PAGE_SIZE + 9)"
proof -
  obtain s2 all where r: "run 1 ramp_backing init_state [261, 0, 263] = Inr (s2, all)"
    using run_init_total[of "[261, 0, 263]" 1 ramp_backing] by (auto simp: INT_MAX_def)
  then obtain s1 l1 ls where t: "translate 1 ramp_backing init_state 261 = Inr (s1, l1)"
    and r1: "run 1 ramp_backing s1 [0, 263] = Inr (s2, ls)" and all: "all = l1 # ls"
    by (auto split: sum.splits)
  have "map out_path (lines_of (run 1 ramp_backing init_state [261, 0, 263])) =
          [FaultFree, FaultFree, TlbHit]"
    by code_simp
  then have paths: "map out_path (l1 # ls) = [FaultFree, FaultFree, TlbHit]"
    using r all by (simp add: lines_of_def)
  have "map out_frame (lines_of (run 1 ramp_backing init_state [261, 0, 263])) = [0, 1, 0]"
    by code_simp
  then have frames: "map out_frame (l1 # ls) = [0, 1, 0]"
    using r all by (simp add: lines_of_def)
  have "map out_value (lines_of (run 1 ramp_backing init_state [261, 0, 263])) = [5, 0, 7]"
    by code_simp
  then have vals: "map out_value (l1 # ls) = [5, 0, 7]"
    using r all by (simp add: lines_of_def)
  have f1: "is_fault l1" using paths by (simp add: is_fault_def)
  have others: "\<forall>l\<in>set ls. is_fault l \<longrightarrow> out_frame l \<noteq> out_frame l1"
    using paths frames by (auto simp: is_fault_def map_eq_Cons_conv)
  from page_load_round_trip[OF t f1 r1 others]
  have mm: "main_memory s2 (out_frame l1 * PAGE_SIZE + 9) =
        ramp_backing (page_of 261 * PAGE_SIZE + 9)"
    by (simp add: PAGE_SIZE_def)
  show ?thesis
    apply (rule exI[of _ s1], rule exI[of _ l1], rule exI[of _ s2], rule exI[of _ ls])
    using t f1 r1 others frames vals mm by simp
qed

subsection \<open>The TLB as a window on its insertions\<close>

lemma insert_all_snoc:
  "insert_all s (h @ [e]) = add_to_tlb (insert_all s h) (logical e) (physical e)"
  by (induction h arbitrary: s) simp_all

lemma mod16_distinct:
  assumes "i < n" "n < i + 16"
  shows "i mod 16 \<noteq> n mod (16::nat)"
proof
  assume "i mod 16 = n mod 16"
  then have "n mod 16 = i mod 16" by simp
  then have "16 dvd n - i" using mod_eq_dvd_iff_nat[of i n 16] assms(1) by simp
  then have "16 \<le> n - i" using assms(1) by (intro dvd_imp_le) simp_all
  then show False using assms(2) by simp
qed

lemma tlb_window:
  "tlbindex (insert_all init_state h) = int (length h) \<and>
   length (tlb (insert_all init_state h)) = 16 \<and>
   (\<forall>i<length h. length h \<le> i + 16 \<longrightarrow> tlb (insert_all init_state h) ! (i mod 16) = h ! i)"
proof (induction h rule: rev_induct)
  case Nil
  then show ?case by (simp add: init_state_def TLB_SIZE_def)
next
  case (snoc e h)
  let ?s = "insert_all init_state h"
  let ?n = "length h"
  have idx: "tlbindex ?s = int ?n" and len: "length (tlb ?s) = 16"
    and old: "\<And>i. i < ?n \<Longrightarrow> ?n \<le> i + 16 \<Longrightarrow> tlb ?s ! (i mod 16) = h ! i"
    using snoc by simp_all
  have slot: "nat (tlbindex ?s smod TLB_SIZE) = ?n mod 16"
    unfolding idx by (simp add: smod_nonneg TLB_SIZE_def nat_mod_distrib)
  have e: "\<lparr>logical = logical e, physical = physical e\<rparr> = e" by (cases e) simp
  have t': "tlb (insert_all init_state (h @ [e])) = (tlb ?s)[?n mod 16 := e]"
    and i': "tlbindex (insert_all init_state (h @ [e])) = int (length (h @ [e]))"
    using slot idx by (simp_all add: insert_all_snoc add_to_tlb_def e)
  have "(tlb ?s)[?n mod 16 := e] ! (i mod 16) = (h @ [e]) ! i"
    if "i < length (h @ [e])" "length (h @ [e]) \<le> i + 16" for i
  proof (cases "i = ?n")
    case True
    then show ?thesis using len by simp
  next
    case False
    then have lt: "i < ?n" "?n < i + 16" using that by simp_all
    then have "i mod 16 \<noteq> ?n mod 16" by (rule mod16_distinct)
    then show ?thesis using old[of i] lt by (simp add: nth_append)
  qed
  then show ?case using t' i' len by simp
qed

lemma search_tlb_from_find:
  assumes "length h \<le> i + 16" "i \<le> length h"
  shows "search_tlb_from (tlb (insert_all init_state h)) (int (length h)) w (int i) =
         (case find (\<lambda>e. logical e = w) (drop i h) of
            None \<Rightarrow> - 1 | Some e \<Rightarrow> uint (physical e))"
  using assms
proof (induction "length h - i" arbitrary: i)
  case 0
  then show ?case by (subst search_tlb_from.simps) simp
next
  case (Suc d)
  let ?t = "tlb (insert_all init_state h)"
  have lt: "i < length h" using Suc(2) by simp
  have ent: "?t ! nat (int i smod TLB_SIZE) = h ! i"
  proof -
    have "nat (int i smod TLB_SIZE) = i mod 16"
      by (simp add: smod_nonneg TLB_SIZE_def nat_mod_distrib)
    then show ?thesis using tlb_window[of h] lt Suc(3) by simp
  qed
  have dr: "drop i h = h ! i # drop (Suc i) h" using lt by (simp add: Cons_nth_drop_Suc)
  have ih: "search_tlb_from ?t (int (length h)) w (int (Suc i)) =
         (case find (\<lambda>e. logical e = w) (drop (Suc i) h) of
            None \<Rightarrow> - 1 | Some e \<Rightarrow> uint (physical e))"
    using Suc(1)[of "Suc i"] Suc(2,3) lt by simp
  have suc: "int i + 1 = int (Suc i)" by simp
  show ?case
    by (subst search_tlb_from.simps) (simp add: lt ent dr Let_def suc ih del: of_nat_Suc)
qed

text \<open>
  C4. TLB probe: after any sequence \<open>h\<close> of insertions into the empty TLB, \<open>search_tlb\<close>
  returns the physical frame of the first entry, in insertion order, among the most
  recent \<open>min TLB_SIZE (length h)\<close> insertions whose logical page is the one asked for,
  and \<open>-1\<close> when none of them matches.
\<close>

theorem search_tlb_probe:
  "search_tlb (insert_all init_state h) w =
     (case find (\<lambda>e. logical e = w) (recent_entries h) of
        None \<Rightarrow> - 1
      | Some e \<Rightarrow> uint (physical e))"
proof -
  let ?n = "length h"
  have start: "max (tlbindex (insert_all init_state h) - TLB_SIZE) 0 = int (?n - 16)"
    using tlb_window[of h] by (simp add: TLB_SIZE_def)
  have rec: "recent_entries h = drop (?n - 16) h"
    by (simp add: recent_entries_def TLB_SIZE_def min_def)
  show ?thesis
    unfolding search_tlb_def start rec
    using search_tlb_from_find[of h "?n - 16" w] tlb_window[of h] by simp
qed

theorem search_tlb_probe_witness:
  "search_tlb (insert_all init_state
     [\<lparr>logical = 1, physical = 10\<rparr>, \<lparr>logical = 2, physical = 20\<rparr>,
      \<lparr>logical = 1, physical = 30\<rparr>]) 1 = 10 \<and>
   search_tlb (insert_all init_state
     [\<lparr>logical = 1, physical = 10\<rparr>, \<lparr>logical = 2, physical = 20\<rparr>,
      \<lparr>logical = 1, physical = 30\<rparr>]) 3 = - 1"
  using search_tlb_probe[of "[\<lparr>logical = 1, physical = 10\<rparr>, \<lparr>logical = 2, physical = 20\<rparr>,
      \<lparr>logical = 1, physical = 30\<rparr>]" 1]
    search_tlb_probe[of "[\<lparr>logical = 1, physical = 10\<rparr>, \<lparr>logical = 2, physical = 20\<rparr>,
      \<lparr>logical = 1, physical = 30\<rparr>]" 3]
  by (simp add: recent_entries_def TLB_SIZE_def)

text \<open>
  C8, as amended. When the input holds no address the loop ends at once with every
  counter 0, and the report divides \<open>0\<close> by \<open>0.0\<close>: with IEEE 754 arithmetic the division
  does not trap and both rates are NaN, not \<open>0.000\<close>.
\<close>

theorem empty_input_rates:
  "run rp backing init_state [] = Inr (init_state, []) \<and>
   total_addresses init_state = 0 \<and>
   final_report init_state =
     \<lparr>translated_addresses = 0, report_page_faults = 0, page_fault_rate = NaN,
      report_tlb_hits = 0, tlb_hit_rate = NaN\<rparr>"
  by (simp add: final_report_def init_state_def double_div_def)

theorem empty_input_rates_witness:
  "run 1 zero_backing init_state [] = Inr (init_state, []) \<and>
   total_addresses init_state = 0 \<and>
   final_report init_state =
     \<lparr>translated_addresses = 0, report_page_faults = 0, page_fault_rate = NaN,
      report_tlb_hits = 0, tlb_hit_rate = NaN\<rparr>"
  using empty_input_rates[of 1 zero_backing] by simp

text \<open>The claim as stated fails on the empty input: neither rate is \<open>0.000\<close>.\<close>

theorem empty_input_rates_not_zero:
  "run 0 zero_backing init_state [] = Inr (init_state, []) \<and>
   page_fault_rate (final_report init_state) \<noteq> Finite 0 \<and>
   tlb_hit_rate (final_report init_state) \<noteq> Finite 0"
  by (simp add: final_report_def init_state_def double_div_def)

subsection \<open>The LRU scan\<close>

lemma lru_scan_keep:
  "\<forall>j. i \<le> j \<and> j < FRAMES \<longrightarrow> lr \<le> ru ! nat j \<Longrightarrow> lru_scan ru i lr idx = idx"
proof (induction ru i lr idx rule: lru_scan.induct)
  case (1 ru i lr idx)
  show ?case
  proof (cases "i < FRAMES")
    case False
    then show ?thesis by (subst lru_scan.simps) simp
  next
    case True
    then have ge: "\<not> ru ! nat i < lr" using 1(3) by (simp add: not_less)
    have "lru_scan ru (i + 1) lr idx = idx" using 1(2)[OF True ge] 1(3) by simp
    then show ?thesis using True ge by (subst lru_scan.simps) simp
  qed
qed



lemma lru_above_sentinel:
  assumes "\<forall>j. 0 \<le> j \<and> j < FRAMES \<longrightarrow> 10000000 \<le> recentUsages s ! nat j"
  shows "get_least_recently_used_element s = 0"
  unfolding get_least_recently_used_element_def using assms by (intro lru_scan_keep) simp

lemma translate_clock:
  assumes "translate rp bk s a = Inr (s', l)"
  shows "time_count s' = time_count s + 1 \<and>
         recentUsages s' = (if rp = 0 then recentUsages s
                            else (recentUsages s)[nat (out_frame l) := time_count s + 1])"
proof -
  define s0 where "s0 = s\<lparr>time_count := time_count s + 1,
                            total_addresses := total_addresses s + 1\<rparr>"
  from assms obtain pp how s1 where
    r: "resolve rp bk s0 (page_of a) = Inr (pp, how, s1)"
    and fu: "frame_used rp s1 pp = Inr s'"
    and e: "emit s' a pp how = Inr l"
    by (auto simp: translate_def Let_def s0_def split: if_splits sum.splits)
  have l: "out_frame l = pp" using emit_line[OF e] by simp
  have s1: "time_count s1 = time_count s0 \<and> recentUsages s1 = recentUsages s0"
    using r
    by (auto simp: resolve_def page_fault_def select_frame_def add_to_tlb_def Let_def
        split: if_splits sum.splits prod.splits)
  show ?thesis using fu s1 l
    by (auto simp: frame_used_def s0_def split: if_splits)
qed




text \<open>
  The counters \<open>tlb_hits\<close>, \<open>page_faults\<close> and \<open>tlbindex\<close> never exceed \<open>total_addresses\<close>,
  so none of them overflows before the loop stops at \<open>INT_MAX\<close> addresses.
\<close>

lemma translate_counters:
  assumes "translate rp bk s a = Inr (s', l)"
  shows "total_addresses s' = total_addresses s + 1 \<and>
         tlb_hits s \<le> tlb_hits s' \<and> page_faults s \<le> page_faults s' \<and>
         tlb_hits s' + page_faults s' \<le> tlb_hits s + page_faults s + 1 \<and>
         tlbindex s \<le> tlbindex s' \<and> tlbindex s' \<le> tlbindex s + 1"
proof -
  define s0 where "s0 = s\<lparr>time_count := time_count s + 1,
                            total_addresses := total_addresses s + 1\<rparr>"
  from assms obtain pp how s1 where
    r: "resolve rp bk s0 (page_of a) = Inr (pp, how, s1)"
    and fu: "frame_used rp s1 pp = Inr s'"
    by (auto simp: translate_def Let_def s0_def split: if_splits sum.splits)
  have s1: "total_addresses s1 = total_addresses s0 \<and>
         tlb_hits s0 \<le> tlb_hits s1 \<and> page_faults s0 \<le> page_faults s1 \<and>
         tlb_hits s1 + page_faults s1 \<le> tlb_hits s0 + page_faults s0 + 1 \<and>
         tlbindex s0 \<le> tlbindex s1 \<and> tlbindex s1 \<le> tlbindex s0 + 1"
    using r
    by (auto simp: resolve_def page_fault_def select_frame_def add_to_tlb_def Let_def
        split: if_splits sum.splits prod.splits)
  have "total_addresses s' = total_addresses s1 \<and> tlb_hits s' = tlb_hits s1 \<and>
        page_faults s' = page_faults s1 \<and> tlbindex s' = tlbindex s1"
    using fu by (auto simp: frame_used_def split: if_splits)
  then show ?thesis using s1 by (simp add: s0_def)
qed

lemma counters_bounded:
  assumes "run rp bk init_state as = Inr (s, ls)"
  shows "total_addresses s = time_count s \<and> 0 \<le> tlb_hits s \<and> 0 \<le> page_faults s \<and>
         tlb_hits s + page_faults s \<le> total_addresses s \<and>
         0 \<le> tlbindex s \<and> tlbindex s \<le> total_addresses s"
proof -
  have "total_addresses s = time_count s \<and> 0 \<le> tlb_hits s \<and> 0 \<le> page_faults s \<and>
         tlb_hits s + page_faults s \<le> total_addresses s \<and>
         0 \<le> tlbindex s \<and> tlbindex s \<le> total_addresses s"
  proof (rule run_invariant[OF assms, where P = "\<lambda>s ls. total_addresses s = time_count s \<and>
         0 \<le> tlb_hits s \<and> 0 \<le> page_faults s \<and>
         tlb_hits s + page_faults s \<le> total_addresses s \<and>
         0 \<le> tlbindex s \<and> tlbindex s \<le> total_addresses s"])
    show "total_addresses init_state = time_count init_state \<and> 0 \<le> tlb_hits init_state \<and>
          0 \<le> page_faults init_state \<and>
          tlb_hits init_state + page_faults init_state \<le> total_addresses init_state \<and>
          0 \<le> tlbindex init_state \<and> tlbindex init_state \<le> total_addresses init_state"
      by (simp add: init_state_def)
  next
    fix s :: vm and ls :: "line_out list" and a s' l
    assume inv: "total_addresses s = time_count s \<and> 0 \<le> tlb_hits s \<and> 0 \<le> page_faults s \<and>
         tlb_hits s + page_faults s \<le> total_addresses s \<and>
         0 \<le> tlbindex s \<and> tlbindex s \<le> total_addresses s"
      and t: "translate rp bk s a = Inr (s', l)"
    from translate_counters[OF t] translate_clock[OF t] inv
    show "total_addresses s' = time_count s' \<and> 0 \<le> tlb_hits s' \<and> 0 \<le> page_faults s' \<and>
         tlb_hits s' + page_faults s' \<le> total_addresses s' \<and>
         0 \<le> tlbindex s' \<and> tlbindex s' \<le> total_addresses s'"
      by linarith
  qed
  then show ?thesis .
qed

subsection \<open>Translations computed forwards\<close>

lemma search_tlb_from_result:
  assumes "length t = 16" "0 \<le> i"
  shows "search_tlb_from t n w i = - 1 \<or>
         (\<exists>e\<in>set t. logical e = w \<and> search_tlb_from t n w i = uint (physical e))"
  using assms
proof (induction t n w i rule: search_tlb_from.induct)
  case (1 t n w i)
  have mem: "t ! nat (i smod TLB_SIZE) \<in> set t"
    using 1(2,3) by (simp add: smod_nonneg TLB_SIZE_def)
  show ?case
  proof (cases "i < n")
    case False
    then show ?thesis by (subst search_tlb_from.simps) simp
  next
    case True
    show ?thesis
    proof (cases "logical (t ! nat (i smod TLB_SIZE)) = w")
      case hit: True
      have "search_tlb_from t n w i = uint (physical (t ! nat (i smod TLB_SIZE)))"
        using True hit by (subst search_tlb_from.simps) (simp add: Let_def)
      then show ?thesis using mem hit by blast
    next
      case miss: False
      have unf: "search_tlb_from t n w i = search_tlb_from t n w (i + 1)"
        using True miss by (subst search_tlb_from.simps) (simp add: Let_def)
      show ?thesis unfolding unf using 1(1)[OF True refl miss 1(2)] 1(3) by simp
    qed
  qed
qed

lemma search_tlb_result:
  assumes "length (tlb s) = 16"
  shows "search_tlb s w = - 1 \<or>
         (\<exists>e\<in>set (tlb s). logical e = w \<and> search_tlb s w = uint (physical e))"
  unfolding search_tlb_def
  using search_tlb_from_result[OF assms, of "max (tlbindex s - TLB_SIZE) 0"] by simp

lemma clear_owner_absent:
  assumes "\<forall>j<length pt. pt ! j \<noteq> pp" "length pt = 256"
  shows "clear_owner pt pp k = pt"
  using assms
proof (induction pt pp k rule: clear_owner.induct)
  case (1 pt pp k)
  show ?case
  proof (cases "k < PAGES")
    case False
    then show ?thesis by (subst clear_owner.simps) simp
  next
    case True
    show ?thesis
    proof (cases "0 \<le> k")
      case nonneg: True
      then have "nat k < length pt" using True 1(3) by (simp add: PAGES_def)
      then have ne: "pt ! nat k \<noteq> pp" using 1(2) by simp
      show ?thesis using True ne 1(1)[OF True ne 1(2,3)] by (subst clear_owner.simps) simp
    next
      case False
      then have "nat k = 0" by simp
      then have ne: "pt ! nat k \<noteq> pp" using 1(2,3) by simp
      show ?thesis using True ne 1(1)[OF True ne 1(2,3)] by (subst clear_owner.simps) simp
    qed
  qed
qed

lemma search_tlb_counters [simp]:
  "search_tlb (s\<lparr>time_count := t, total_addresses := u\<rparr>) w = search_tlb s w"
  by (simp add: search_tlb_def)

text \<open>A translation that finds the page loaded, in the TLB or in the page table.\<close>

lemma translate_loaded:
  assumes "time_count s < INT_MAX" "total_addresses s < INT_MAX"
    and "0 \<le> pp" "pp < FRAMES"
    and "search_tlb s (word_of_int (page_of a)) = pp \<or>
         (search_tlb s (word_of_int (page_of a)) = - 1 \<and> pagetable s ! nat (page_of a) = pp)"
  shows "\<exists>s' l. translate rp bk s a = Inr (s', l) \<and> out_frame l = pp \<and>
           (out_path l = TlbHit \<or> out_path l = TableHit) \<and>
           pagetable s' = pagetable s \<and> free_page s' = free_page s \<and>
           time_count s' = time_count s + 1 \<and> total_addresses s' = total_addresses s + 1 \<and>
           (tlb s' = tlb s \<and> tlbindex s' = tlbindex s \<or>
            tlb s' = (tlb s)[nat (tlbindex s smod TLB_SIZE) :=
                       \<lparr>logical = word_of_int (page_of a), physical = word_of_int pp\<rparr>] \<and>
            tlbindex s' = tlbindex s + 1) \<and>
           (if rp = 0 then queue s' = enqueue (queue s) pp \<and> recentUsages s' = recentUsages s
            else queue s' = queue s \<and>
                 recentUsages s' = (recentUsages s)[nat pp := time_count s + 1])"
proof -
  have idx: "0 \<le> pp * PAGE_SIZE + offset_of a \<and> pp * PAGE_SIZE + offset_of a < PHYSICAL_MEMORY_SIZE"
    using assms(3,4) offset_of_range[of a] by (simp add: consts_defs)
  from assms(5) show ?thesis
  proof
    assume hit: "search_tlb s (word_of_int (page_of a)) = pp"
    then have "search_tlb s (word_of_int (page_of a)) \<noteq> - 1" using assms(3) by simp
    then show ?thesis using hit assms(1-4) idx
      by (simp add: translate_def resolve_def frame_used_def emit_def Let_def)
  next
    assume miss: "search_tlb s (word_of_int (page_of a)) = - 1 \<and>
      pagetable s ! nat (page_of a) = pp"
    then have "pagetable s ! nat (page_of a) \<noteq> - 1" using assms(3) by simp
    then show ?thesis using miss assms(1-4) idx
      by (simp add: translate_def resolve_def frame_used_def emit_def add_to_tlb_def Let_def)
  qed
qed

text \<open>A translation that faults, given the frame \<open>select_frame\<close> chooses.\<close>

lemma translate_fault:
  assumes "time_count s < INT_MAX" "total_addresses s < INT_MAX"
    and "search_tlb s (word_of_int (page_of a)) = - 1" "pagetable s ! nat (page_of a) = - 1"
    and "select_frame rp (s\<lparr>time_count := time_count s + 1,
            total_addresses := total_addresses s + 1,
            page_faults := page_faults s + 1\<rparr>) = Inr (pp, how, s1)"
    and "0 \<le> pp" "pp < FRAMES"
  shows "\<exists>s' l. translate rp bk s a = Inr (s', l) \<and> out_frame l = pp \<and> out_path l = how \<and>
           pagetable s' = (clear_owner (pagetable s1) pp 0)[nat (page_of a) := pp] \<and>
           free_page s' = free_page s1 \<and>
           time_count s' = time_count s1 \<and> total_addresses s' = total_addresses s1 \<and>
           tlb s' = (tlb s1)[nat (tlbindex s1 smod TLB_SIZE) :=
                       \<lparr>logical = word_of_int (page_of a), physical = word_of_int pp\<rparr>] \<and>
           tlbindex s' = tlbindex s1 + 1 \<and>
           (if rp = 0 then queue s' = enqueue (queue s1) pp \<and> recentUsages s' = recentUsages s1
            else queue s' = queue s1 \<and>
                 recentUsages s' = (recentUsages s1)[nat pp := time_count s1])"
proof -
  have idx: "0 \<le> pp * PAGE_SIZE + offset_of a \<and> pp * PAGE_SIZE + offset_of a < PHYSICAL_MEMORY_SIZE"
    using assms(6,7) offset_of_range[of a] by (simp add: consts_defs)
  show ?thesis using assms idx
    by (simp add: translate_def resolve_def page_fault_def load_page_def frame_used_def
        emit_def add_to_tlb_def Let_def)
qed

subsection \<open>Runs that load each page into the frame of its number\<close>

lemma page_of_page: "0 \<le> p \<Longrightarrow> p < 256 \<Longrightarrow> page_of (p * 256) = p"
proof -
  assume p: "0 \<le> p" "p < 256"
  have "drop_bit 8 (p * 256) = p" by (simp add: drop_bit_eq_div)
  moreover have "p AND 255 = p" unfolding m255 using p by (simp flip: take_bit_eq_mask add: take_bit_eq_mod)
  ultimately show ?thesis by (simp add: page_of_def OFFSET_BITS_def PAGE_MASK_def)
qed

lemma tlb_entries_update:
  assumes "\<forall>e\<in>set t. uint (physical e) = uint (logical e) \<and> uint (logical e) \<le> k"
    and "0 \<le> p" "p \<le> k'" "k \<le> k'" "p < 256"
  shows "\<forall>e\<in>set (t[i := \<lparr>logical = word_of_int p, physical = word_of_int p\<rparr>]).
           uint (physical e) = uint (logical e) \<and> uint (logical e) \<le> k'"
proof
  fix e assume "e \<in> set (t[i := \<lparr>logical = word_of_int p, physical = word_of_int p\<rparr>])"
  then have "e = \<lparr>logical = word_of_int p, physical = word_of_int p\<rparr> \<or> e \<in> set t"
    using set_update_subset_insert[of t i] by blast
  then show "uint (physical e) = uint (logical e) \<and> uint (logical e) \<le> k'"
  proof
    assume "e = \<lparr>logical = word_of_int p, physical = word_of_int p\<rparr>"
    then show ?thesis using assms(2,3,5) by (simp add: uint_woi8)
  next
    assume "e \<in> set t"
    then show ?thesis using assms(1,4) by fastforce
  qed
qed

lemma ident_search:
  assumes "ident rp M k s" "0 \<le> p" "p < 256"
  shows "search_tlb s (word_of_int p) = - 1 \<or>
         (search_tlb s (word_of_int p) = p \<and> p \<le> int k)"
proof -
  have len: "length (tlb s) = 16"
    and ent: "\<And>e. e \<in> set (tlb s) \<Longrightarrow>
        uint (physical e) = uint (logical e) \<and> uint (logical e) \<le> int k"
    using assms(1) by (simp_all add: ident_def)
  from search_tlb_result[OF len, of "word_of_int p"] show ?thesis
  proof
    assume "search_tlb s (word_of_int p) = - 1"
    then show ?thesis by simp
  next
    assume "\<exists>e\<in>set (tlb s). logical e = word_of_int p \<and>
      search_tlb s (word_of_int p) = uint (physical e)"
    then obtain e where e: "e \<in> set (tlb s)" "logical e = word_of_int p"
      "search_tlb s (word_of_int p) = uint (physical e)" by blast
    have "uint (logical e) = p" using e(2) assms(2,3) by (simp add: uint_woi8)
    then show ?thesis using ent[OF e(1)] e(3) by simp
  qed
qed

lemma ident_access:
  assumes "ident rp M k s" "p \<le> k" "k < 64" "int (M + k) < INT_MAX"
  shows "\<exists>s' l. translate rp bk s (int p * 256) = Inr (s', l) \<and> out_frame l = int p \<and>
           pagetable s' = pagetable s \<and> free_page s' = free_page s \<and>
           time_count s' = int (M + k) + 1 \<and> total_addresses s' = int (M + k) + 1 \<and>
           length (tlb s') = 16 \<and> 0 \<le> tlbindex s' \<and>
           (\<forall>e\<in>set (tlb s'). uint (physical e) = uint (logical e) \<and> uint (logical e) \<le> int k) \<and>
           (if rp = 0 then queue s' = enqueue (queue s) (int p) \<and> recentUsages s' = recentUsages s
            else queue s' = queue s \<and>
                 recentUsages s' = (recentUsages s)[p := int (M + k) + 1])"
proof -
  have pg: "page_of (int p * 256) = int p" using assms(2,3) by (simp add: page_of_page)
  have t: "time_count s = int (M + k)" "total_addresses s = int (M + k)"
    and pt: "pagetable s ! p = int p"
    and len: "length (tlb s) = 16" "0 \<le> tlbindex s"
    and ent: "\<forall>e\<in>set (tlb s). uint (physical e) = uint (logical e) \<and> uint (logical e) \<le> int k"
    using assms(1,2,3) by (simp_all add: ident_def)
  have fr: "0 \<le> int p" "int p < FRAMES" using assms(2,3) by (simp_all add: FRAMES_def)
  have sr: "search_tlb s (word_of_int (page_of (int p * 256))) = int p \<or>
         (search_tlb s (word_of_int (page_of (int p * 256))) = - 1 \<and>
          pagetable s ! nat (page_of (int p * 256)) = int p)"
    unfolding pg using ident_search[OF assms(1), of "int p"] pt assms(2,3) by auto
  from translate_loaded[OF _ _ fr sr, of rp bk] t assms(4)
  obtain s' l where r: "translate rp bk s (int p * 256) = Inr (s', l)" "out_frame l = int p"
    "pagetable s' = pagetable s" "free_page s' = free_page s"
    "time_count s' = time_count s + 1" "total_addresses s' = total_addresses s + 1"
    "tlb s' = tlb s \<and> tlbindex s' = tlbindex s \<or>
     tlb s' = (tlb s)[nat (tlbindex s smod TLB_SIZE) :=
                \<lparr>logical = word_of_int (int p), physical = word_of_int (int p)\<rparr>] \<and>
     tlbindex s' = tlbindex s + 1"
    "if rp = 0 then queue s' = enqueue (queue s) (int p) \<and> recentUsages s' = recentUsages s
     else queue s' = queue s \<and>
          recentUsages s' = (recentUsages s)[nat (int p) := time_count s + 1]"
    unfolding pg by auto
  have new: "\<forall>e\<in>set ((tlb s)[i := \<lparr>logical = word_of_int (int p), physical = word_of_int (int p)\<rparr>]).
      uint (physical e) = uint (logical e) \<and> uint (logical e) \<le> int k" for i
    using tlb_entries_update[OF ent, of "int p" "int k" i] assms(2,3) by simp
  have tl: "length (tlb s') = 16 \<and> 0 \<le> tlbindex s' \<and>
      (\<forall>e\<in>set (tlb s'). uint (physical e) = uint (logical e) \<and> uint (logical e) \<le> int k)"
    using r(7) len ent new by auto
  show ?thesis using r(1-6,8) tl t by (auto split: if_splits)
qed

lemma enqueue_ident:
  assumes "numberOfFrames q = 64" "head q = 0" "0 \<le> size_q q" "size_q q \<le> 64"
    "tail q = size_q q - 1"
  shows "enqueue q v =
           (if size_q q = 64 then q
            else q\<lparr>tail := size_q q, queueArray := (queueArray q)[nat (size_q q) := Some v],
                   size_q := size_q q + 1\<rparr>)"
  using assms by (simp add: enqueue_def Let_def smod_nonneg)

lemma ident_hit:
  assumes "ident rp M 0 s" "1 \<le> M" "int M < INT_MAX"
  shows "\<exists>s' l. translate rp bk s 0 = Inr (s', l) \<and> ident rp (Suc M) 0 s'"
proof -
  from ident_access[OF assms(1), of 0 bk] assms(3)
  obtain s' l where r: "translate rp bk s 0 = Inr (s', l)"
    "pagetable s' = pagetable s" "free_page s' = free_page s"
    "time_count s' = int M + 1" "total_addresses s' = int M + 1"
    "length (tlb s') = 16" "0 \<le> tlbindex s'"
    "\<forall>e\<in>set (tlb s'). uint (physical e) = uint (logical e) \<and> uint (logical e) \<le> int 0"
    "if rp = 0 then queue s' = enqueue (queue s) 0 \<and> recentUsages s' = recentUsages s
     else queue s' = queue s \<and> recentUsages s' = (recentUsages s)[0 := int M + 1]"
    by auto
  have common: "time_count s' = int (Suc M + 0)" "total_addresses s' = int (Suc M + 0)"
    "uint (free_page s') = int 0 + 1" "length (pagetable s') = 256"
    "\<forall>p<256. pagetable s' ! p = (if p \<le> 0 then int p else - 1)"
    using r(2-5) assms(1) by (simp_all add: ident_def)
  have pol: "if rp = 0 then
        numberOfFrames (queue s') = 64 \<and> length (queueArray (queue s')) = 64 \<and>
        head (queue s') = 0 \<and> size_q (queue s') = min 64 (int (Suc M + 0)) \<and>
        tail (queue s') = size_q (queue s') - 1 \<and>
        (\<forall>j<64. j < Suc M + 0 \<longrightarrow>
           queueArray (queue s') ! j = Some (if j < Suc M then 0 else int (j - Suc M) + 1))
      else
        length (recentUsages s') = 64 \<and> recentUsages s' ! 0 = int (Suc M) \<and>
        (\<forall>j. 1 \<le> j \<and> j \<le> 0 \<longrightarrow> recentUsages s' ! j = int (Suc M + j))"
  proof (cases "rp = 0")
    case False
    then show ?thesis using r(9) assms(1) by (simp add: ident_def)
  next
    case True
    have q: "numberOfFrames (queue s) = 64" "length (queueArray (queue s)) = 64"
      "head (queue s) = 0" "size_q (queue s) = min 64 (int M)"
      "tail (queue s) = size_q (queue s) - 1"
      and cells: "\<And>j. j < 64 \<Longrightarrow> j < M \<Longrightarrow> queueArray (queue s) ! j = Some 0"
      using assms(1) True by (simp_all add: ident_def)
    have e: "queue s' = (if size_q (queue s) = 64 then queue s
            else (queue s)\<lparr>tail := size_q (queue s),
                   queueArray := (queueArray (queue s))[nat (size_q (queue s)) := Some 0],
                   size_q := size_q (queue s) + 1\<rparr>)"
      using r(9) True enqueue_ident[OF q(1,3) _ _ q(5), of 0] q(4) by simp
    show ?thesis
    proof (cases "64 \<le> M")
      case full: True
      then show ?thesis using True e q cells by (simp add: min_def)
    next
      case False
      then have sz: "size_q (queue s) = int M" using q(4) by simp
      have "(queueArray (queue s))[M := Some 0] ! j = Some 0" if "j < 64" "j < Suc M" for j
        using that cells[of j] q(2) False by (cases "j = M") simp_all
      then show ?thesis using True e q sz False by (simp add: min_def)
    qed
  qed
  have "ident rp (Suc M) 0 s'"
    unfolding ident_def by (insert common r(6,7,8) pol, (intro conjI; assumption))
  then show ?thesis using r(1) by blast
qed

lemma ident_fresh:
  assumes "ident rp M k s" "1 \<le> M" "k < 63" "int (M + k) < INT_MAX"
  shows "\<exists>s' l. translate rp bk s (int (Suc k) * 256) = Inr (s', l) \<and> ident rp M (Suc k) s' \<and>
           out_frame l = int (Suc k) \<and> out_path l = FaultFree"
proof -
  let ?p = "int (Suc k)"
  have pg: "page_of (?p * 256) = ?p" using assms(3) by (intro page_of_page) simp_all
  have t: "time_count s = int (M + k)" "total_addresses s = int (M + k)"
    and fp: "uint (free_page s) = int k + 1"
    and ptl: "length (pagetable s) = 256"
    and pt: "\<And>p. p < 256 \<Longrightarrow> pagetable s ! p = (if p \<le> k then int p else - 1)"
    and len: "length (tlb s) = 16" "0 \<le> tlbindex s"
    and ent: "\<forall>e\<in>set (tlb s). uint (physical e) = uint (logical e) \<and> uint (logical e) \<le> int k"
    using assms(1) by (simp_all add: ident_def)
  have miss: "search_tlb s (word_of_int (page_of (?p * 256))) = - 1"
    unfolding pg using ident_search[OF assms(1), of ?p] assms(3) by auto
  have np: "nat ?p = Suc k" by simp
  have ptmiss: "pagetable s ! nat (page_of (?p * 256)) = - 1"
    unfolding pg np using pt[of "Suc k"] assms(3) by simp
  let ?s0 = "s\<lparr>time_count := time_count s + 1, total_addresses := total_addresses s + 1,
               page_faults := page_faults s + 1\<rparr>"
  have sf: "select_frame rp ?s0 = Inr (?p, FaultFree, ?s0\<lparr>free_page := free_page s + 1\<rparr>)"
    using fp assms(3) by (simp add: select_frame_def FRAMES_def)
  have fr: "0 \<le> ?p" "?p < FRAMES" using assms(3) by (simp_all add: FRAMES_def)
  from translate_fault[OF _ _ miss ptmiss sf fr, of bk] t assms(4)
  obtain s' l where r: "translate rp bk s (?p * 256) = Inr (s', l)" "out_frame l = ?p"
    "out_path l = FaultFree"
    "pagetable s' = (clear_owner (pagetable s) ?p 0)[nat ?p := ?p]"
    "free_page s' = free_page s + 1"
    "time_count s' = time_count s + 1" "total_addresses s' = total_addresses s + 1"
    "tlb s' = (tlb s)[nat (tlbindex s smod TLB_SIZE) :=
                \<lparr>logical = word_of_int ?p, physical = word_of_int ?p\<rparr>]"
    "tlbindex s' = tlbindex s + 1"
    "if rp = 0 then queue s' = enqueue (queue s) ?p \<and> recentUsages s' = recentUsages s
     else queue s' = queue s \<and>
          recentUsages s' = (recentUsages s)[nat ?p := time_count s + 1]"
    unfolding pg by auto
  note r = r[unfolded np]
  have "\<forall>j<length (pagetable s). pagetable s ! j \<noteq> ?p" using pt ptl by simp
  then have co: "clear_owner (pagetable s) ?p 0 = pagetable s"
    using ptl by (rule clear_owner_absent)
  have "(pagetable s)[Suc k := ?p] ! p = (if p \<le> Suc k then int p else - 1)"
    if "p < 256" for p
    using pt[OF that] ptl that by (cases "p = Suc k") simp_all
  then have pt': "\<forall>p<256. pagetable s' ! p = (if p \<le> Suc k then int p else - 1)"
    unfolding r(4) co by blast
  have fp': "uint (free_page s') = int (Suc k) + 1"
    unfolding r(5) using fp assms(3) by (simp add: uint_succ8)
  have tl: "length (tlb s') = 16" "0 \<le> tlbindex s'"
    "\<forall>e\<in>set (tlb s'). uint (physical e) = uint (logical e) \<and> uint (logical e) \<le> int (Suc k)"
    using r(8,9) len tlb_entries_update[OF ent, of ?p "int (Suc k)"] assms(3) by simp_all
  have common: "time_count s' = int (M + Suc k)" "total_addresses s' = int (M + Suc k)"
    "length (pagetable s') = 256"
    using r(4,6,7) t ptl co by simp_all
  have pol: "if rp = 0 then
        numberOfFrames (queue s') = 64 \<and> length (queueArray (queue s')) = 64 \<and>
        head (queue s') = 0 \<and> size_q (queue s') = min 64 (int (M + Suc k)) \<and>
        tail (queue s') = size_q (queue s') - 1 \<and>
        (\<forall>j<64. j < M + Suc k \<longrightarrow>
           queueArray (queue s') ! j = Some (if j < M then 0 else int (j - M) + 1))
      else
        length (recentUsages s') = 64 \<and> recentUsages s' ! 0 = int M \<and>
        (\<forall>j. 1 \<le> j \<and> j \<le> Suc k \<longrightarrow> recentUsages s' ! j = int (M + j))"
  proof (cases "rp = 0")
    case False
    have ru: "length (recentUsages s) = 64" "recentUsages s ! 0 = int M"
      "\<And>j. 1 \<le> j \<Longrightarrow> j \<le> k \<Longrightarrow> recentUsages s ! j = int (M + j)"
      using assms(1) False by (simp_all add: ident_def)
    have ru': "recentUsages s' = (recentUsages s)[Suc k := int (M + Suc k)]"
      using r(10) False t by (simp add: add.commute)
    have "(recentUsages s)[Suc k := int (M + Suc k)] ! j = int (M + j)"
      if "1 \<le> j" "j \<le> Suc k" for j
      using that ru(1) ru(3)[of j] assms(3) by (cases "j = Suc k") simp_all
    then show ?thesis using False ru ru' by simp
  next
    case True
    have q: "numberOfFrames (queue s) = 64" "length (queueArray (queue s)) = 64"
      "head (queue s) = 0" "size_q (queue s) = min 64 (int (M + k))"
      "tail (queue s) = size_q (queue s) - 1"
      and cells: "\<And>j. j < 64 \<Longrightarrow> j < M + k \<Longrightarrow>
         queueArray (queue s) ! j = Some (if j < M then 0 else int (j - M) + 1)"
      using assms(1) True by (simp_all add: ident_def)
    have e: "queue s' = (if size_q (queue s) = 64 then queue s
            else (queue s)\<lparr>tail := size_q (queue s),
                   queueArray := (queueArray (queue s))[nat (size_q (queue s)) := Some ?p],
                   size_q := size_q (queue s) + 1\<rparr>)"
      using r(10) True enqueue_ident[OF q(1,3) _ _ q(5), of ?p] q(4) by simp
    define n where "n = M + k"
    have sucn: "M + Suc k = Suc n" by (simp add: n_def)
    show ?thesis
    proof (cases "64 \<le> n")
      case full: True
      have "queue s' = queue s" using e q(4) full by (simp add: n_def)
      moreover have "min 64 (int (M + Suc k)) = min 64 (int (M + k))"
        using full by (simp add: n_def)
      moreover have "queueArray (queue s) ! j = Some (if j < M then 0 else int (j - M) + 1)"
        if "j < 64" for j
        using cells[of j] that full by (simp add: n_def)
      ultimately show ?thesis using True q by simp
    next
      case False
      then have sz: "size_q (queue s) = int n" using q(4) by (simp add: n_def)
      have qe: "queue s' = (queue s)\<lparr>tail := int n,
                   queueArray := (queueArray (queue s))[n := Some ?p],
                   size_q := int n + 1\<rparr>"
        using e sz False by simp
      have c: "(queueArray (queue s))[n := Some ?p] ! j =
              Some (if j < M then 0 else int (j - M) + 1)"
        if "j < 64" "j < Suc n" for j
      proof (cases "j = n")
        case True
        then show ?thesis using q(2) that by (simp add: n_def)
      next
        case False
        then show ?thesis using cells[of j] that by (simp add: n_def)
      qed
      have m: "min 64 (int (Suc n)) = int n + 1" using False by simp
      have "numberOfFrames (queue s') = 64 \<and> length (queueArray (queue s')) = 64 \<and>
        head (queue s') = 0 \<and> size_q (queue s') = min 64 (int (M + Suc k)) \<and>
        tail (queue s') = size_q (queue s') - 1 \<and>
        (\<forall>j<64. j < M + Suc k \<longrightarrow>
           queueArray (queue s') ! j = Some (if j < M then 0 else int (j - M) + 1))"
        unfolding qe sucn m using q(1,2,3) c by simp
      then show ?thesis using True by simp
    qed
  qed
  have "ident rp M (Suc k) s'"
    unfolding ident_def by (insert common fp' pt' tl pol, (intro conjI; assumption))
  then show ?thesis using r(1,2,3) by blast
qed

lemma search_miss:
  assumes "length (tlb s) = 16" "\<forall>e\<in>set (tlb s). uint (logical e) \<le> k"
    "0 \<le> k" "k < p" "p < 256"
  shows "search_tlb s (word_of_int p) = - 1"
proof -
  from search_tlb_result[OF assms(1), of "word_of_int p"] show ?thesis
  proof
    assume "\<exists>e\<in>set (tlb s). logical e = word_of_int p \<and>
      search_tlb s (word_of_int p) = uint (physical e)"
    then obtain e where e: "e \<in> set (tlb s)" "logical e = word_of_int p" by blast
    have "uint (logical e) = p" using e(2) assms(3,4,5) by (simp add: uint_woi8)
    then show ?thesis using assms(2,4) e(1) by fastforce
  qed simp
qed

lemma ident_base: "\<exists>s l. translate rp bk init_state 0 = Inr (s, l) \<and> ident rp 1 0 s"
proof -
  have pg: "page_of 0 = 0" using page_of_page[of 0] by simp
  have miss: "search_tlb init_state (word_of_int (page_of 0)) = - 1"
    by (subst search_tlb_def, subst search_tlb_from.simps) (simp add: init_state_def)
  have ptmiss: "pagetable init_state ! nat (page_of 0) = - 1"
    unfolding pg by (simp add: init_state_def PAGES_def)
  let ?s0 = "init_state\<lparr>time_count := time_count init_state + 1,
               total_addresses := total_addresses init_state + 1,
               page_faults := page_faults init_state + 1\<rparr>"
  have sf: "select_frame rp ?s0 = Inr (0, FaultFree, ?s0\<lparr>free_page := free_page init_state + 1\<rparr>)"
    by (simp add: select_frame_def FRAMES_def init_state_def)
  have t0: "time_count init_state < INT_MAX" "total_addresses init_state < INT_MAX"
    by (simp_all add: init_state_def INT_MAX_def)
  from translate_fault[OF t0 miss ptmiss sf, of bk]
  obtain s l where r: "translate rp bk init_state 0 = Inr (s, l)"
    "pagetable s = (clear_owner (pagetable init_state) 0 0)[nat (page_of 0) := 0]"
    "free_page s = free_page init_state + 1"
    "time_count s = time_count init_state + 1"
    "total_addresses s = total_addresses init_state + 1"
    "tlb s = (tlb init_state)[nat (tlbindex init_state smod TLB_SIZE) :=
                \<lparr>logical = word_of_int (page_of 0), physical = word_of_int 0\<rparr>]"
    "tlbindex s = tlbindex init_state + 1"
    "if rp = 0 then queue s = enqueue (queue init_state) 0 \<and>
                    recentUsages s = recentUsages init_state
     else queue s = queue init_state \<and>
          recentUsages s = (recentUsages init_state)[nat 0 := time_count init_state + 1]"
    by (auto simp: FRAMES_def)
  have co: "clear_owner (pagetable init_state) 0 0 = pagetable init_state"
    by (rule clear_owner_absent) (simp_all add: init_state_def PAGES_def)
  have a: "time_count s = int (1 + 0)" "total_addresses s = int (1 + 0)"
    "uint (free_page s) = int 0 + 1" "length (pagetable s) = 256"
    using r(2-5) co by (simp_all add: init_state_def PAGES_def)
  have b: "\<forall>p<256. pagetable s ! p = (if p \<le> 0 then int p else - 1)"
    unfolding r(2) co pg by (simp add: init_state_def PAGES_def nth_list_update)
  have c: "length (tlb s) = 16" "0 \<le> tlbindex s"
    using r(6,7) by (simp_all add: init_state_def TLB_SIZE_def)
  have "\<forall>e\<in>set (tlb init_state). uint (physical e) = uint (logical e) \<and>
      uint (logical e) \<le> int 0"
    by (simp add: init_state_def)
  from tlb_entries_update[OF this, of 0 "int 0"]
  have d: "\<forall>e\<in>set (tlb s). uint (physical e) = uint (logical e) \<and> uint (logical e) \<le> int 0"
    unfolding r(6) pg by simp
  have e: "if rp = 0 then
        numberOfFrames (queue s) = 64 \<and> length (queueArray (queue s)) = 64 \<and>
        head (queue s) = 0 \<and> size_q (queue s) = min 64 (int (1 + 0)) \<and>
        tail (queue s) = size_q (queue s) - 1 \<and>
        (\<forall>j<64. j < 1 + 0 \<longrightarrow>
           queueArray (queue s) ! j = Some (if j < 1 then 0 else int (j - 1) + 1))
      else
        length (recentUsages s) = 64 \<and> recentUsages s ! 0 = int 1 \<and>
        (\<forall>j. 1 \<le> j \<and> j \<le> 0 \<longrightarrow> recentUsages s ! j = int (1 + j))"
    using r(8)
    by (simp add: init_state_def initQueue_def enqueue_def FRAMES_def smod_nonneg Let_def)
  have "ident rp 1 0 s"
    unfolding ident_def by (insert a b c d e, (intro conjI; assumption))
  then show ?thesis using r(1) by blast
qed

lemma run_hits:
  assumes "int (Suc m) \<le> INT_MAX"
  shows "\<exists>s ls. run rp bk init_state (replicate (Suc m) 0) = Inr (s, ls) \<and>
           ident rp (Suc m) 0 s"
  using assms
proof (induction m)
  case 0
  from ident_base[of rp bk] show ?case by auto
next
  case (Suc m)
  then obtain s ls where r: "run rp bk init_state (replicate (Suc m) 0) = Inr (s, ls)"
    and i: "ident rp (Suc m) 0 s" by auto
  from ident_hit[OF i, of bk] Suc.prems
  obtain s' l where t: "translate rp bk s 0 = Inr (s', l)" "ident rp (Suc (Suc m)) 0 s'"
    by auto
  have "replicate (Suc (Suc m)) (0::int) = replicate (Suc m) 0 @ [0]"
    by (simp add: replicate_append_same)
  then show ?case using r t by (simp only: run_snoc) simp
qed

lemma warm_input_Suc: "warm_input M (Suc k) = warm_input M k @ [int (Suc k) * 256]"
  by (simp add: warm_input_def)

lemma run_warm:
  assumes "k \<le> 63" "int (Suc m + k) \<le> INT_MAX"
  shows "\<exists>s ls. run rp bk init_state (warm_input (Suc m) k) = Inr (s, ls) \<and>
           ident rp (Suc m) k s \<and> length ls = Suc m + k \<and>
           (\<forall>i<k. out_frame (ls ! (Suc m + i)) = int (Suc i) \<and>
                  out_path (ls ! (Suc m + i)) = FaultFree)"
  using assms
proof (induction k)
  case 0
  from run_hits[of m rp bk] 0 obtain s ls where
    r: "run rp bk init_state (replicate (Suc m) 0) = Inr (s, ls)" "ident rp (Suc m) 0 s"
    by auto
  have "length ls = Suc m" using run_lines[OF r(1)] by simp
  then show ?case using r by (simp add: warm_input_def)
next
  case (Suc k)
  then obtain s ls where r: "run rp bk init_state (warm_input (Suc m) k) = Inr (s, ls)"
    and i: "ident rp (Suc m) k s" and len: "length ls = Suc m + k"
    and old: "\<And>i. i < k \<Longrightarrow> out_frame (ls ! (Suc m + i)) = int (Suc i) \<and>
                  out_path (ls ! (Suc m + i)) = FaultFree"
    by auto
  from ident_fresh[OF i, of bk] Suc.prems
  obtain s' l where t: "translate rp bk s (int (Suc k) * 256) = Inr (s', l)"
    "ident rp (Suc m) (Suc k) s'" "out_frame l = int (Suc k)" "out_path l = FaultFree"
    by auto
  have run': "run rp bk init_state (warm_input (Suc m) (Suc k)) = Inr (s', ls @ [l])"
    unfolding warm_input_Suc run_snoc using r t(1) by simp
  have "out_frame ((ls @ [l]) ! (Suc m + i)) = int (Suc i) \<and>
        out_path ((ls @ [l]) ! (Suc m + i)) = FaultFree" if "i < Suc k" for i
  proof (cases "i = k")
    case True
    then show ?thesis using len t(3,4) by (simp add: nth_append)
  next
    case False
    then show ?thesis using old[of i] that len by (simp add: nth_append)
  qed
  then show ?case using run' t(2) len by auto
qed

lemma page_64: "page_of 16384 = 64" using page_of_page[of 64] by simp
lemma page_65: "page_of 16640 = 65" using page_of_page[of 65] by simp

lemma lru_long_run:
  "\<exists>s ls. run 1 bk init_state (warm_input 10000000 63 @ [0]) = Inr (s, ls) \<and>
     length ls = 10000064 \<and>
     length (recentUsages s) = 64 \<and> recentUsages s ! 0 = 10000064 \<and>
     (\<forall>j. 1 \<le> j \<and> j \<le> 63 \<longrightarrow> recentUsages s ! j = 10000000 + int j) \<and>
     uint (free_page s) = 64 \<and> time_count s = 10000064 \<and> total_addresses s = 10000064 \<and>
     length (tlb s) = 16 \<and> (\<forall>e\<in>set (tlb s). uint (logical e) \<le> 63) \<and>
     pagetable s ! 64 = - 1"
proof -
  have M: "Suc 9999999 = 10000000" by simp
  from run_warm[of 63 9999999 1 bk] obtain s0 ls0 where
    r0: "run 1 bk init_state (warm_input 10000000 63) = Inr (s0, ls0)"
    and i0: "ident 1 10000000 63 s0" and len0: "length ls0 = 10000063"
    unfolding M by (auto simp: INT_MAX_def)
  from ident_access[OF i0, of 0 bk] obtain s l where
    t: "translate 1 bk s0 0 = Inr (s, l)" "pagetable s = pagetable s0"
    "free_page s = free_page s0" "time_count s = int (10000000 + 63) + 1"
    "total_addresses s = int (10000000 + 63) + 1" "length (tlb s) = 16"
    "\<forall>e\<in>set (tlb s). uint (physical e) = uint (logical e) \<and> uint (logical e) \<le> int 63"
    "recentUsages s = (recentUsages s0)[0 := int (10000000 + 63) + 1]"
    by (auto simp: INT_MAX_def)
  have ru0: "length (recentUsages s0) = 64"
    "\<And>j. 1 \<le> j \<Longrightarrow> j \<le> 63 \<Longrightarrow> recentUsages s0 ! j = int (10000000 + j)"
    and fp0: "uint (free_page s0) = int 63 + 1"
    and pt0: "pagetable s0 ! 64 = - 1"
    using i0 by (simp_all add: ident_def)
  have run: "run 1 bk init_state (warm_input 10000000 63 @ [0]) = Inr (s, ls0 @ [l])"
    unfolding run_snoc using r0 t(1) by simp
  have ru: "length (recentUsages s) = 64" "recentUsages s ! 0 = 10000064"
    "\<forall>j. 1 \<le> j \<and> j \<le> 63 \<longrightarrow> recentUsages s ! j = 10000000 + int j"
    unfolding t(8) using ru0 by simp_all
  have tl: "\<forall>e\<in>set (tlb s). uint (logical e) \<le> 63" using t(7) by simp
  show ?thesis
    apply (rule exI[of _ s], rule exI[of _ "ls0 @ [l]"])
    using run len0 ru fp0 t(2-6) tl pt0 by simp
qed

lemma lru_long_victim:
  assumes "length (recentUsages s) = 64" "recentUsages s ! 0 = 10000064"
    "\<forall>j. 1 \<le> j \<and> j \<le> 63 \<longrightarrow> recentUsages s ! j = 10000000 + int j"
    "uint (free_page s) = 64" "time_count s = 10000064" "total_addresses s = 10000064"
    "length (tlb s) = 16" "\<forall>e\<in>set (tlb s). uint (logical e) \<le> 63"
    "pagetable s ! 64 = - 1"
  shows "(\<forall>j. 0 \<le> j \<and> j < FRAMES \<longrightarrow> 10000000 \<le> recentUsages s ! nat j) \<and>
         get_least_recently_used_element s = 0 \<and>
         least_recent (recentUsages s) 1 \<and> \<not> least_recent (recentUsages s) 0 \<and>
         (\<exists>s' l. translate 1 bk s 16384 = Inr (s', l) \<and> out_path l = FaultVictim \<and>
                  out_frame l = 0)"
proof -
  have all: "10000000 \<le> recentUsages s ! nat j" if "0 \<le> j" "j < FRAMES" for j
  proof (cases "j = 0")
    case True
    then show ?thesis using assms(2) by simp
  next
    case False
    then have "1 \<le> nat j \<and> nat j \<le> 63" using that unfolding FRAMES_def by linarith
    then have "recentUsages s ! nat j = 10000000 + int (nat j)" using assms(3) by blast
    then show ?thesis using that by simp
  qed
  then have above: "\<forall>j. 0 \<le> j \<and> j < FRAMES \<longrightarrow> 10000000 \<le> recentUsages s ! nat j"
    by blast
  then have v: "get_least_recently_used_element s = 0" by (rule lru_above_sentinel)
  have one: "recentUsages s ! 1 = 10000001" using assms(3) by simp
  have "recentUsages s ! nat 1 \<le> recentUsages s ! nat j" if "0 \<le> j" "j < FRAMES" for j
  proof (cases "j = 0")
    case True
    then show ?thesis using assms(2) one by simp
  next
    case False
    then have "1 \<le> nat j \<and> nat j \<le> 63" using that unfolding FRAMES_def by linarith
    then have "recentUsages s ! nat j = 10000000 + int (nat j)" using assms(3) by blast
    then show ?thesis using that one False by simp
  qed
  moreover have "recentUsages s ! nat 1 < recentUsages s ! nat j" if "0 \<le> j" "j < 1" for j
  proof -
    have "j = 0" using that by simp
    then show ?thesis using assms(2) one by simp
  qed
  ultimately have l1: "least_recent (recentUsages s) 1"
    unfolding least_recent_def by (auto simp: FRAMES_def)
  have l0: "\<not> least_recent (recentUsages s) 0"
  proof
    assume "least_recent (recentUsages s) 0"
    then have "\<forall>j. 0 \<le> j \<and> j < FRAMES \<longrightarrow> recentUsages s ! nat 0 \<le> recentUsages s ! nat j"
      unfolding least_recent_def by blast
    from this[rule_format, of 1] have "recentUsages s ! nat 0 \<le> recentUsages s ! nat 1"
      by (simp add: FRAMES_def)
    then show False using assms(2) one by simp
  qed
  have miss: "search_tlb s (word_of_int (page_of 16384)) = - 1"
    unfolding page_64 using search_miss[OF assms(7,8), of 64] by simp
  have ptmiss: "pagetable s ! nat (page_of 16384) = - 1"
    unfolding page_64 using assms(9) by simp
  let ?s0 = "s\<lparr>time_count := time_count s + 1, total_addresses := total_addresses s + 1,
               page_faults := page_faults s + 1\<rparr>"
  have "get_least_recently_used_element ?s0 = get_least_recently_used_element s"
    by (simp add: get_least_recently_used_element_def)
  then have sf: "select_frame 1 ?s0 = Inr (0, FaultVictim, ?s0)"
    using assms(4) v by (simp add: select_frame_def FRAMES_def)
  from translate_fault[OF _ _ miss ptmiss sf, of bk] assms(5,6)
  have "\<exists>s' l. translate 1 bk s 16384 = Inr (s', l) \<and> out_path l = FaultVictim \<and>
                  out_frame l = 0"
    by (auto simp: INT_MAX_def FRAMES_def)
  then show ?thesis using above v l1 l0 by blast
qed

lemma fifo_long_run:
  "\<exists>s ls. run 0 bk init_state (warm_input 2 63 @ [16384, 16640]) = Inr (s, ls) \<and>
     length ls = 67 \<and>
     (\<forall>i<63. out_frame (ls ! (2 + i)) = int (Suc i) \<and> out_path (ls ! (2 + i)) = FaultFree) \<and>
     out_path (ls ! 65) = FaultVictim \<and> out_frame (ls ! 65) = 0 \<and>
     out_path (ls ! 66) = FaultVictim \<and> out_frame (ls ! 66) = 0"
proof -
  have M: "Suc 1 = 2" by simp
  from run_warm[of 63 1 0 bk] obtain s0 ls0 where
    r0: "run 0 bk init_state (warm_input 2 63) = Inr (s0, ls0)"
    and i0: "ident 0 2 63 s0" and len0: "length ls0 = 65"
    and lines0: "\<And>i. i < 63 \<Longrightarrow> out_frame (ls0 ! (2 + i)) = int (Suc i) \<and>
                  out_path (ls0 ! (2 + i)) = FaultFree"
    unfolding M by (auto simp: INT_MAX_def)
  have t0: "time_count s0 = 65" "total_addresses s0 = 65"
    and fp0: "uint (free_page s0) = 64"
    and ptl0: "length (pagetable s0) = 256" and pt0: "pagetable s0 ! 64 = - 1"
      "pagetable s0 ! 65 = - 1"
    and tl0: "length (tlb s0) = 16"
      "\<forall>e\<in>set (tlb s0). uint (physical e) = uint (logical e) \<and> uint (logical e) \<le> int 63"
    and q0: "numberOfFrames (queue s0) = 64" "length (queueArray (queue s0)) = 64"
      "head (queue s0) = 0" "size_q (queue s0) = 64" "tail (queue s0) = 63"
      "queueArray (queue s0) ! 0 = Some 0" "queueArray (queue s0) ! 1 = Some 0"
    using i0 by (simp_all add: ident_def)
  \<comment> \<open>page 64: the queue's front cell holds frame 0\<close>
  have missA: "search_tlb s0 (word_of_int (page_of 16384)) = - 1"
    unfolding page_64 using search_miss[OF tl0(1), of 63 64] tl0(2) by simp
  have ptmissA: "pagetable s0 ! nat (page_of 16384) = - 1"
    unfolding page_64 using pt0 by simp
  let ?c0 = "s0\<lparr>time_count := time_count s0 + 1, total_addresses := total_addresses s0 + 1,
               page_faults := page_faults s0 + 1\<rparr>"
  let ?q1 = "(queue s0)\<lparr>head := 1, size_q := 63\<rparr>"
  have dq0: "dequeue (queue s0) = Inr (0, ?q1)"
    using q0 by (simp add: dequeue_def smod_nonneg)
  have sfA: "select_frame 0 ?c0 = Inr (0, FaultVictim, ?c0\<lparr>queue := ?q1\<rparr>)"
    using fp0 dq0 by (simp add: select_frame_def FRAMES_def)
  from translate_fault[OF _ _ missA ptmissA sfA, of bk] t0
  obtain sA lA where a: "translate 0 bk s0 16384 = Inr (sA, lA)" "out_frame lA = 0"
    "out_path lA = FaultVictim"
    "pagetable sA = (clear_owner (pagetable s0) 0 0)[nat (page_of 16384) := 0]"
    "free_page sA = free_page s0" "time_count sA = 66" "total_addresses sA = 66"
    "tlb sA = (tlb s0)[nat (tlbindex s0 smod TLB_SIZE) :=
                \<lparr>logical = word_of_int (page_of 16384), physical = word_of_int 0\<rparr>]"
    "queue sA = enqueue ?q1 0"
    by (auto simp: INT_MAX_def FRAMES_def)
  have qA: "queue sA = (queue s0)\<lparr>head := 1, tail := 0,
              queueArray := (queueArray (queue s0))[0 := Some 0], size_q := 64\<rparr>"
    unfolding a(9) using q0 by (simp add: enqueue_def Let_def smod_nonneg)
  have tlA: "length (tlb sA) = 16" "\<forall>e\<in>set (tlb sA). uint (logical e) \<le> 64"
  proof -
    show "length (tlb sA) = 16" using a(8) tl0(1) by simp
    show "\<forall>e\<in>set (tlb sA). uint (logical e) \<le> 64"
    proof
      fix e assume "e \<in> set (tlb sA)"
      then have "e = \<lparr>logical = word_of_int 64, physical = word_of_int 0\<rparr> \<or> e \<in> set (tlb s0)"
        unfolding a(8) page_64
        using set_update_subset_insert[of "tlb s0" "nat (tlbindex s0 smod TLB_SIZE)"] by blast
      then show "uint (logical e) \<le> 64" using tl0(2) by (auto simp: uint_woi8)
    qed
  qed
  \<comment> \<open>page 65: the next cell of the queue holds frame 0 as well\<close>
  have missB: "search_tlb sA (word_of_int (page_of 16640)) = - 1"
    unfolding page_65 using search_miss[OF tlA, of 65] by simp
  have "clear_owner (pagetable s0) 0 0 ! 65 = - 1"
    using clear_owner_nth[of "pagetable s0" 0 0 65] pt0(2) by auto
  then have ptmissB: "pagetable sA ! nat (page_of 16640) = - 1"
    unfolding page_65 a(4) page_64 by simp
  let ?cA = "sA\<lparr>time_count := time_count sA + 1, total_addresses := total_addresses sA + 1,
               page_faults := page_faults sA + 1\<rparr>"
  have dqA: "dequeue (queue sA) = Inr (0, (queue sA)\<lparr>head := 2, size_q := 63\<rparr>)"
    unfolding qA using q0 by (simp add: dequeue_def smod_nonneg)
  have sfB: "select_frame 0 ?cA =
      Inr (0, FaultVictim, ?cA\<lparr>queue := (queue sA)\<lparr>head := 2, size_q := 63\<rparr>\<rparr>)"
    using fp0 a(5) dqA by (simp add: select_frame_def FRAMES_def)
  from translate_fault[OF _ _ missB ptmissB sfB, of bk] a(6,7)
  obtain sB lB where b: "translate 0 bk sA 16640 = Inr (sB, lB)" "out_frame lB = 0"
    "out_path lB = FaultVictim"
    by (auto simp: INT_MAX_def FRAMES_def)
  have run: "run 0 bk init_state (warm_input 2 63 @ [16384, 16640]) =
      Inr (sB, ls0 @ [lA, lB])"
    unfolding run_append using r0 a(1) b(1) by simp
  have old: "out_frame ((ls0 @ [lA, lB]) ! (2 + i)) = int (Suc i) \<and>
      out_path ((ls0 @ [lA, lB]) ! (2 + i)) = FaultFree" if "i < 63" for i
    using lines0[OF that] len0 that by (simp add: nth_append)
  have last: "(ls0 @ [lA, lB]) ! 65 = lA" "(ls0 @ [lA, lB]) ! 66 = lB"
    using len0 by (simp_all add: nth_append)
  show ?thesis
    apply (rule exI[of _ sB], rule exI[of _ "ls0 @ [lA, lB]"])
    unfolding last using run len0 old a(2,3) b(2,3) by simp
qed






text \<open>
  C2, at its failing input. Under LRU, after address 0 ten million times, the first
  address of pages 1 to 63 and address 0 once more, all 64 frames are in use, frame 0
  holds the greatest timestamp 10000064 and frame 1 the least, 10000001. The page fault
  of the next address, 16384, selects frame 0 as victim.
\<close>

theorem lru_victim_after_long_run:
  "\<exists>s ls s' l.
     run 1 zero_backing init_state (warm_input 10000000 63 @ [0]) = Inr (s, ls) \<and>
     length ls = 10000064 \<and> uint (free_page s) = 64 \<and>
     recentUsages s = 10000064 # map (\<lambda>j. 10000000 + int j) [1..<64] \<and>
     get_least_recently_used_element s = 0 \<and>
     translate 1 zero_backing s 16384 = Inr (s', l) \<and>
     out_path l = FaultVictim \<and> out_frame l = 0"
proof -
  from lru_long_run[of zero_backing] obtain s ls where
    r: "run 1 zero_backing init_state (warm_input 10000000 63 @ [0]) = Inr (s, ls)"
    and len: "length ls = 10000064"
    and st: "length (recentUsages s) = 64" "recentUsages s ! 0 = 10000064"
      "\<forall>j. 1 \<le> j \<and> j \<le> 63 \<longrightarrow> recentUsages s ! j = 10000000 + int j"
      "uint (free_page s) = 64" "time_count s = 10000064" "total_addresses s = 10000064"
      "length (tlb s) = 16" "\<forall>e\<in>set (tlb s). uint (logical e) \<le> 63"
      "pagetable s ! 64 = - 1"
    by blast
  from lru_long_victim[OF st, of zero_backing] obtain s' l where
    v: "get_least_recently_used_element s = 0"
    "translate 1 zero_backing s 16384 = Inr (s', l)" "out_path l = FaultVictim" "out_frame l = 0"
    by blast
  have ru: "recentUsages s = 10000064 # map (\<lambda>j. 10000000 + int j) [1..<64]"
  proof (rule nth_equalityI)
    show "length (recentUsages s) = length (10000064 # map (\<lambda>j. 10000000 + int j) [1..<64])"
      using st(1) by simp
  next
    fix i assume "i < length (recentUsages s)"
    then have i: "i < 64" using st(1) by simp
    show "recentUsages s ! i = (10000064 # map (\<lambda>j. 10000000 + int j) [1..<64]) ! i"
    proof (cases i)
      case 0
      then show ?thesis using st(2) by simp
    next
      case (Suc n)
      then have "recentUsages s ! i = 10000000 + int i" using st(3) i by simp
      then show ?thesis using Suc i by simp
    qed
  qed
  show ?thesis
    apply (rule exI[of _ s], rule exI[of _ ls], rule exI[of _ s'], rule exI[of _ l])
    using r len st(4) ru v by simp
qed

text \<open>
  C1, at its failing input. Under FIFO the second access to page 0, a TLB hit, puts
  frame 0 into the queue again (the queue grows from 1 to 2). After addresses 0, 0 and the
  first address of pages 1 to 63, which load frames 1 to 63 in turn, the page fault of
  page 64 evicts frame 0, and the page fault of page 65 evicts frame 0 again, the frame
  loaded last, while frames 1 to 63 hold older pages.
\<close>

theorem fifo_victim_not_oldest:
  "map out_path (lines_of (run 0 zero_backing init_state [0, 0])) = [FaultFree, TlbHit] \<and>
   queue_size_of (run 0 zero_backing init_state [0]) = 1 \<and>
   queue_size_of (run 0 zero_backing init_state [0, 0]) = 2 \<and>
   (\<exists>s ls. run 0 zero_backing init_state (warm_input 2 63 @ [16384, 16640]) = Inr (s, ls) \<and>
      length ls = 67 \<and>
      map out_path (take 63 (drop 2 ls)) = replicate 63 FaultFree \<and>
      map out_frame (take 63 (drop 2 ls)) = map int [1..<64] \<and>
      out_path (ls ! 65) = FaultVictim \<and> out_frame (ls ! 65) = 0 \<and>
      out_path (ls ! 66) = FaultVictim \<and> out_frame (ls ! 66) = 0)"
proof -
  have a: "map out_path (lines_of (run 0 zero_backing init_state [0, 0])) = [FaultFree, TlbHit]"
    by code_simp
  have b: "queue_size_of (run 0 zero_backing init_state [0]) = 1" by code_simp
  have c: "queue_size_of (run 0 zero_backing init_state [0, 0]) = 2" by code_simp
  from fifo_long_run[of zero_backing] obtain s ls where
    r: "run 0 zero_backing init_state (warm_input 2 63 @ [16384, 16640]) = Inr (s, ls)"
    and len: "length ls = 67"
    and mid: "\<And>i. i < 63 \<Longrightarrow> out_frame (ls ! (2 + i)) = int (Suc i) \<and>
        out_path (ls ! (2 + i)) = FaultFree"
    and last: "out_path (ls ! 65) = FaultVictim" "out_frame (ls ! 65) = 0"
      "out_path (ls ! 66) = FaultVictim" "out_frame (ls ! 66) = 0"
    by blast
  have p: "map out_path (take 63 (drop 2 ls)) = replicate 63 FaultFree"
    by (rule nth_equalityI) (use len mid in simp_all)
  have f: "map out_frame (take 63 (drop 2 ls)) = map int [1..<64]"
    by (rule nth_equalityI) (use len mid in simp_all)
  have "\<exists>s ls. run 0 zero_backing init_state (warm_input 2 63 @ [16384, 16640]) = Inr (s, ls) \<and>
      length ls = 67 \<and>
      map out_path (take 63 (drop 2 ls)) = replicate 63 FaultFree \<and>
      map out_frame (take 63 (drop 2 ls)) = map int [1..<64] \<and>
      out_path (ls ! 65) = FaultVictim \<and> out_frame (ls ! 65) = 0 \<and>
      out_path (ls ! 66) = FaultVictim \<and> out_frame (ls ! 66) = 0"
    apply (rule exI[of _ s], rule exI[of _ ls])
    using r len p f last by simp
  then show ?thesis using a b c by blast
qed

subsection \<open>Offsets and bounds of every run\<close>

text \<open>
  C6. Offset preservation: for every input of at most \<open>INT_MAX\<close> addresses the loop
  runs to the end, prints one line per address, and the low \<open>OFFSET_BITS\<close> bits of each
  physical address printed are those of the logical address on the same line.
\<close>

theorem offset_preserved:
  assumes "int (length as) \<le> INT_MAX"
  shows "\<exists>s ls. run rp backing init_state as = Inr (s, ls) \<and> length ls = length as \<and>
           (\<forall>i<length as.
              out_logical_address (ls ! i) = as ! i \<and>
              out_physical_address (ls ! i) AND OFFSET_MASK = (as ! i) AND OFFSET_MASK)"
proof -
  from run_init_total[OF assms, of rp backing] obtain s ls where
    r: "run rp backing init_state as = Inr (s, ls)" by blast
  have "out_logical_address (ls ! i) = as ! i \<and>
        out_physical_address (ls ! i) AND OFFSET_MASK = (as ! i) AND OFFSET_MASK"
    if "i < length as" for i
  proof -
    from run_lines[OF r] that obtain s1 s2 where
      "translate rp backing s1 (as ! i) = Inr (s2, ls ! i)" by blast
    from translate_line[OF this] show ?thesis
      by (simp add: offset_of_def OFFSET_MASK_def OFFSET_BITS_def offset_bits_kept)
  qed
  then show ?thesis using r run_lines[OF r] by blast
qed

theorem offset_preserved_witness:
  "int (length [300, 5 :: int]) \<le> INT_MAX \<and>
   (\<exists>s ls. run 0 zero_backing init_state [300, 5] = Inr (s, ls) \<and> length ls = length [300, 5 :: int] \<and>
           (\<forall>i<length [300, 5 :: int].
              out_logical_address (ls ! i) = [300, 5] ! i \<and>
              out_physical_address (ls ! i) AND OFFSET_MASK = ([300, 5] ! i) AND OFFSET_MASK))"
  using offset_preserved[of "[300, 5]" 0 zero_backing] by (simp add: INT_MAX_def)

text \<open>
  C9. For every input of at most \<open>INT_MAX\<close> addresses the loop runs to the end without
  an out-of-bounds access; every \<open>physical_page\<close> it uses is a frame in \<open>[0, FRAMES)\<close>,
  so every index into \<open>main_memory\<close> lies in \<open>[0, FRAMES * PAGE_SIZE)\<close>; and in every
  state the loop reaches in which FIFO would select a victim (no free frame is left),
  the queue is not empty and \<open>dequeue\<close> returns a frame, not the sentinel \<open>-1\<close>.
\<close>

theorem physical_page_in_range:
  assumes "int (length as) \<le> INT_MAX"
  shows "\<exists>s ls. run rp backing init_state as = Inr (s, ls) \<and> length ls = length as \<and>
           (\<forall>l\<in>set ls. 0 \<le> out_frame l \<and> out_frame l < FRAMES \<and>
              0 \<le> out_frame l * PAGE_SIZE + offset_of (out_logical_address l) \<and>
              out_frame l * PAGE_SIZE + offset_of (out_logical_address l) < PHYSICAL_MEMORY_SIZE) \<and>
           (rp = 0 \<and> \<not> uint (free_page s) < FRAMES \<longrightarrow>
              size_q (queue s) \<noteq> 0 \<and>
              (\<exists>e q. dequeue (queue s) = Inr (e, q) \<and> 0 \<le> e \<and> e < FRAMES))"
proof -
  from run_init_total[OF assms, of rp backing] obtain s ls where
    r: "run rp backing init_state as = Inr (s, ls)" and inv: "vm_inv rp s"
    and len: "length ls = length as"
    and fr: "\<forall>l\<in>set ls. 0 \<le> out_frame l \<and> out_frame l < FRAMES"
    by blast
  have idx: "0 \<le> out_frame l * PAGE_SIZE + offset_of (out_logical_address l) \<and>
        out_frame l * PAGE_SIZE + offset_of (out_logical_address l) < PHYSICAL_MEMORY_SIZE"
    if "l \<in> set ls" for l
    using fr that offset_of_range[of "out_logical_address l"] by (auto simp: consts_defs)
  have deq: "size_q (queue s) \<noteq> 0 \<and>
      (\<exists>e q. dequeue (queue s) = Inr (e, q) \<and> 0 \<le> e \<and> e < FRAMES)"
    if "rp = 0" "\<not> uint (free_page s) < FRAMES"
  proof -
    have "queue_inv (queue s)" "size_q (queue s) \<noteq> 0"
      using inv that by (auto simp: vm_inv_def struct_inv_def FRAMES_def)
    then show ?thesis using dequeue_inv[of "queue s"] by blast
  qed
  show ?thesis using r len fr idx deq by blast
qed

theorem physical_page_in_range_witness:
  "int (length (warm_input 2 63)) \<le> INT_MAX \<and>
   (\<exists>s ls. run 0 zero_backing init_state (warm_input 2 63) = Inr (s, ls) \<and>
      length ls = 65 \<and> \<not> uint (free_page s) < FRAMES \<and> size_q (queue s) \<noteq> 0 \<and>
      (\<exists>e q. dequeue (queue s) = Inr (e, q) \<and> 0 \<le> e \<and> e < FRAMES) \<and>
      (\<forall>l\<in>set ls. 0 \<le> out_frame l \<and> out_frame l < FRAMES))"
proof -
  have len: "length (warm_input 2 63) = 65" by (simp add: warm_input_def)
  then have h: "int (length (warm_input 2 63)) \<le> INT_MAX" by (simp add: INT_MAX_def)
  from physical_page_in_range[OF h, of 0 zero_backing] obtain s ls where
    r: "run 0 zero_backing init_state (warm_input 2 63) = Inr (s, ls)"
    and l: "length ls = length (warm_input 2 63)"
    and fr: "\<forall>l\<in>set ls. 0 \<le> out_frame l \<and> out_frame l < FRAMES"
    and dq: "\<not> uint (free_page s) < FRAMES \<longrightarrow> size_q (queue s) \<noteq> 0 \<and>
              (\<exists>e q. dequeue (queue s) = Inr (e, q) \<and> 0 \<le> e \<and> e < FRAMES)"
    by auto
  have M: "Suc 1 = 2" by simp
  from run_warm[of 63 1 0 zero_backing] obtain s0 ls0 where
    "run 0 zero_backing init_state (warm_input 2 63) = Inr (s0, ls0)" "ident 0 2 63 s0"
    unfolding M by (auto simp: INT_MAX_def)
  then have "ident 0 2 63 s" using r by simp
  then have full: "\<not> uint (free_page s) < FRAMES" by (simp add: ident_def FRAMES_def)
  show ?thesis
    using h r l len fr dq full by auto
qed

end
